theory Spec2Isabelle
  imports Main "HOL-Library.Char_ord" "HOL-Library.List_Lexorder" "HOL-Library.Multiset"
begin

section \<open>Data model of the debug server (src/DebugServer/Server.cpp)\<close>

text \<open>
  The server keeps its state in \<^verbatim>\<open>Server::Impl\<close>. A \<^verbatim>\<open>size_t\<close> is a natural number here.
  The sums the code forms from a frame index (below the number of frames) or from a
  line number (read from an \<^verbatim>\<open>int\<close>) stay far below \<open>2 ^ 64\<close> and are plain sums; the counter
  \<^verbatim>\<open>++last_breakpoint_index\<close>, which only the number of calls bounds, has its wrap-around
  at \<open>2 ^ 64\<close> written out. A \<^verbatim>\<open>VALUE\<close> of the scripting engine is an opaque handle.
  \<^verbatim>\<open>Common/BreakPoint.h\<close> and \<^verbatim>\<open>Common/StackFrame.h\<close> are not among the sources: the two
  records list the fields that Server.cpp reads and writes (\<open>file'\<close> is the field
  \<^verbatim>\<open>file\<close>).
\<close>

type_synonym VALUE = nat

record BreakPoint =
  index :: nat
  file' :: string
  line :: nat

record StackFrame =
  name :: string
  binding :: VALUE

text \<open>
  A \<^verbatim>\<open>std::map\<close> is the list of its entries in iteration order, which is the order of the
  keys: \<^verbatim>\<open>std::string\<close> compares byte by byte, as the lexicographic order on \<open>char list\<close>.
  \<^verbatim>\<open>find\<close> is \<^const>\<open>map_of\<close>; \<^verbatim>\<open>insert\<close> leaves the map as it is when the key is
  present and puts the entry at its place in the order otherwise; \<^verbatim>\<open>m[k]\<close> followed by a
  write to the reference is \<open>std_map_put\<close>.
\<close>

type_synonym ('k, 'v) std_map = "('k \<times> 'v) list"

definition std_map_insert :: "'k::linorder \<Rightarrow> 'v \<Rightarrow> ('k, 'v) std_map \<Rightarrow> ('k, 'v) std_map" where
  "std_map_insert k v m = (case map_of m k of Some _ \<Rightarrow> m | None \<Rightarrow> insort_key fst (k, v) m)"

definition std_map_subscript :: "'k \<Rightarrow> 'v \<Rightarrow> ('k, 'v) std_map \<Rightarrow> 'v" where
  "std_map_subscript k dflt m = (case map_of m k of Some v \<Rightarrow> v | None \<Rightarrow> dflt)"

definition std_map_put :: "'k::linorder \<Rightarrow> 'v \<Rightarrow> ('k, 'v) std_map \<Rightarrow> ('k, 'v) std_map" where
  "std_map_put k v m =
     (case map_of m k of
        Some _ \<Rightarrow> map (\<lambda>e. if fst e = k then (k, v) else e) m
      | None \<Rightarrow> insort_key fst (k, v) m)"

text \<open>
  The state. \<open>script_lines_hash\<close> is the content of the engine's hash \<^verbatim>\<open>SCRIPT_LINES__\<close>
  that the field of that name refers to, in the order in which the engine entered the
  files: the engine fills it, the server only reads it. Before \<^verbatim>\<open>Start\<close> the field
  refers to no hash; the model takes that as the empty one. The UI collaborator \<^verbatim>\<open>ui_\<close>
  and the mutex are not fields of the model: the UI is a parameter of the functions
  that call it.
\<close>

record Impl =
  unresolved_breakpoints :: "BreakPoint list"
  breakpoints :: "(nat, (string, BreakPoint) std_map) std_map"
  last_breakpoint_index :: nat
  script_lines_hash :: "(string \<times> string list) list"
  script_lines :: "(string, string list) std_map"
  is_stopped :: bool
  break_at_next_line :: bool
  frames :: "StackFrame list"
  active_frame_index :: nat
  last_break_file_path :: string
  last_break_line :: nat

definition Impl_init :: Impl where
  "Impl_init =
     \<lparr>unresolved_breakpoints = [], breakpoints = [], last_breakpoint_index = 0,
      script_lines_hash = [], script_lines = [], is_stopped = False,
      break_at_next_line = False, frames = [], active_frame_index = 0,
      last_break_file_path = [], last_break_line = 0\<rparr>"

section \<open>Case-insensitive search\<close>

text \<open>
  Modelled from the spec: \<^verbatim>\<open>FindSubstringCaseInsensitive.h\<close> is not among the sources.
  Server.cpp tests its result with \<^verbatim>\<open>>= 0\<close>, and the spec calls a match "the first registry
  path whose text contains the breakpoint's file text as a case-insensitive substring":
  the function gives the position of the first occurrence of the second string in the
  first, letters of the two cases taken as equal, and \<open>-1\<close> when there is none.
  \<open>to_upper\<close> maps the letters a to z to A to Z (it clears the bit of value 32) and
  leaves every other byte as it is.
\<close>

definition to_upper :: "char \<Rightarrow> char" where
  "to_upper c =
     (if CHR ''a'' \<le> c \<and> c \<le> CHR ''z''
      then (case c of Char b0 b1 b2 b3 b4 b5 b6 b7 \<Rightarrow> Char b0 b1 b2 b3 b4 False b6 b7)
      else c)"

fun ci_prefix :: "string \<Rightarrow> string \<Rightarrow> bool" where
  "ci_prefix [] hay = True"
| "ci_prefix (n # ns) [] = False"
| "ci_prefix (n # ns) (h # hs) = (to_upper n = to_upper h \<and> ci_prefix ns hs)"

fun ci_search :: "string \<Rightarrow> string \<Rightarrow> nat \<Rightarrow> int" where
  "ci_search [] needle pos = (if ci_prefix needle [] then int pos else - 1)"
| "ci_search (h # hs) needle pos =
     (if ci_prefix needle (h # hs) then int pos else ci_search hs needle (Suc pos))"

definition FindSubstringCaseInsensitive :: "string \<Rightarrow> string \<Rightarrow> int" where
  "FindSubstringCaseInsensitive str1 str2 = ci_search str1 str2 0"

section \<open>The breakpoint store\<close>

text \<open>\<^verbatim>\<open>Server::Impl::GetBreakPoint\<close>: the outer map by line, the inner one by file.\<close>

definition GetBreakPoint :: "string \<Rightarrow> nat \<Rightarrow> Impl \<Rightarrow> BreakPoint option" where
  "GetBreakPoint f l s =
     (case map_of (breakpoints s) l of
        None \<Rightarrow> None
      | Some m \<Rightarrow> map_of m f)"

text \<open>
  \<^verbatim>\<open>EachKeyValFunc\<close> and \<^verbatim>\<open>Server::Impl::ReadScriptLinesHash\<close>: every file of the engine's
  hash that the registry does not hold yet is added with its lines.
\<close>

definition EachKeyValFunc ::
  "string \<times> string list \<Rightarrow> (string, string list) std_map \<Rightarrow> (string, string list) std_map" where
  "EachKeyValFunc kv m =
     (case map_of m (fst kv) of
        None \<Rightarrow> std_map_put (fst kv) (snd kv) m
      | Some _ \<Rightarrow> m)"

definition ReadScriptLinesHash :: "Impl \<Rightarrow> Impl" where
  "ReadScriptLinesHash s =
     s\<lparr>script_lines := fold EachKeyValFunc (script_lines_hash s) (script_lines s)\<rparr>"

text \<open>
  \<^verbatim>\<open>Server::Impl::ResolveBreakPoint\<close>: the loop over the registry, leaving at the first
  path that matches and is long enough. The breakpoint is passed by reference: the
  model returns it beside the flag.
\<close>

fun ResolveBreakPoint_loop :: "(string, string list) std_map \<Rightarrow> BreakPoint \<Rightarrow> bool \<times> BreakPoint" where
  "ResolveBreakPoint_loop [] bp = (False, bp)"
| "ResolveBreakPoint_loop ((file_path, lines_vec) # rest) bp =
     (if FindSubstringCaseInsensitive file_path (file' bp) \<ge> 0 then
        if line bp \<le> length lines_vec then (True, bp\<lparr>file' := file_path\<rparr>)
        else ResolveBreakPoint_loop rest bp
      else ResolveBreakPoint_loop rest bp)"

definition ResolveBreakPoint :: "Impl \<Rightarrow> BreakPoint \<Rightarrow> bool \<times> BreakPoint" where
  "ResolveBreakPoint s bp = ResolveBreakPoint_loop (script_lines s) bp"

text \<open>
  \<^verbatim>\<open>Server::Impl::AddBreakPoint\<close>. A breakpoint that arrives with index 0 takes the next
  value of the counter. A resolved one goes into the inner map of its line with
  \<^verbatim>\<open>insert\<close>; an unresolved one is pushed on the vector. The breakpoint is passed by
  reference, so the model returns it with the state.
\<close>

definition Impl_AddBreakPoint :: "BreakPoint \<Rightarrow> bool \<Rightarrow> Impl \<Rightarrow> BreakPoint \<times> Impl" where
  "Impl_AddBreakPoint bp0 is_resolved s0 =
     (let s = (if index bp0 = 0
               then s0\<lparr>last_breakpoint_index := (last_breakpoint_index s0 + 1) mod 2 ^ 64\<rparr>
               else s0);
          bp = (if index bp0 = 0 then bp0\<lparr>index := last_breakpoint_index s\<rparr> else bp0)
      in if is_resolved then
           (let bp_map = std_map_subscript (line bp) [] (breakpoints s)
            in (bp, s\<lparr>breakpoints :=
                        std_map_put (line bp) (std_map_insert (file' bp) bp bp_map) (breakpoints s)\<rparr>))
         else (bp, s\<lparr>unresolved_breakpoints := unresolved_breakpoints s @ [bp]\<rparr>))"

text \<open>
  \<^verbatim>\<open>Server::Impl::ResolveBreakPoints\<close>: one pass over the vector of unresolved
  breakpoints. \<open>kept\<close> collects the elements the pass steps over; an element that
  resolves is handed to \<^verbatim>\<open>AddBreakPoint\<close> and erased. The vector is written back when the
  pass ends (adding a resolved breakpoint does not read it).
\<close>

fun ResolveBreakPoints_loop :: "BreakPoint list \<Rightarrow> BreakPoint list \<Rightarrow> Impl \<Rightarrow> Impl" where
  "ResolveBreakPoints_loop kept [] s = s\<lparr>unresolved_breakpoints := kept\<rparr>"
| "ResolveBreakPoints_loop kept (bp # rest) s =
     (if fst (ResolveBreakPoint s bp)
      then ResolveBreakPoints_loop kept rest
             (snd (Impl_AddBreakPoint (snd (ResolveBreakPoint s bp)) True s))
      else ResolveBreakPoints_loop (kept @ [bp]) rest s)"

definition ResolveBreakPoints :: "Impl \<Rightarrow> Impl" where
  "ResolveBreakPoints s0 =
     (let s = ReadScriptLinesHash s0
      in ResolveBreakPoints_loop [] (unresolved_breakpoints s) s)"

text \<open>\<^verbatim>\<open>Server::AddBreakPoint\<close>: the result, the breakpoint as the caller gets it back, the state.\<close>

definition Server_AddBreakPoint :: "BreakPoint \<Rightarrow> Impl \<Rightarrow> bool \<times> BreakPoint \<times> Impl" where
  "Server_AddBreakPoint bp s0 =
     (let s = ReadScriptLinesHash s0;
          file_resolved = fst (ResolveBreakPoint s bp);
          bp1 = snd (ResolveBreakPoint s bp)
      in (True, Impl_AddBreakPoint bp1 file_resolved s))"

text \<open>
  \<^verbatim>\<open>Server::RemoveBreakPoint\<close>. The first loop walks the outer map by line and each inner
  map by file, erases the first entry with the index and, when that empties the inner
  map, the line's entry too. The second loop, run when the first removed nothing,
  erases the first element of the vector with the index.
\<close>

fun erase_index_inner :: "nat \<Rightarrow> (string, BreakPoint) std_map \<Rightarrow> (string, BreakPoint) std_map option" where
  "erase_index_inner i [] = None"
| "erase_index_inner i ((f, bp) # m) =
     (if index bp = i then Some m
      else map_option ((#) (f, bp)) (erase_index_inner i m))"

fun erase_index_resolved ::
  "nat \<Rightarrow> (nat, (string, BreakPoint) std_map) std_map \<Rightarrow> (nat, (string, BreakPoint) std_map) std_map option" where
  "erase_index_resolved i [] = None"
| "erase_index_resolved i ((l, m) # rest) =
     (case erase_index_inner i m of
        Some m' \<Rightarrow> Some (if m' = [] then rest else (l, m') # rest)
      | None \<Rightarrow> map_option ((#) (l, m)) (erase_index_resolved i rest))"

fun erase_index_unresolved :: "nat \<Rightarrow> BreakPoint list \<Rightarrow> BreakPoint list option" where
  "erase_index_unresolved i [] = None"
| "erase_index_unresolved i (bp # rest) =
     (if i = index bp then Some rest
      else map_option ((#) bp) (erase_index_unresolved i rest))"

definition RemoveBreakPoint :: "nat \<Rightarrow> Impl \<Rightarrow> bool \<times> Impl" where
  "RemoveBreakPoint i s =
     (case erase_index_resolved i (breakpoints s) of
        Some m \<Rightarrow> (True, s\<lparr>breakpoints := m\<rparr>)
      | None \<Rightarrow>
          (case erase_index_unresolved i (unresolved_breakpoints s) of
             Some u \<Rightarrow> (True, s\<lparr>unresolved_breakpoints := u\<rparr>)
           | None \<Rightarrow> (False, s)))"

text \<open>
  The resolved breakpoints in the order in which \<^verbatim>\<open>Server::GetBreakPoints\<close> and
  \<^verbatim>\<open>Server::RemoveBreakPoint\<close> walk them, with and without their keys.
\<close>

definition store_entries ::
  "(nat, (string, BreakPoint) std_map) std_map \<Rightarrow> (nat \<times> string \<times> BreakPoint) list" where
  "store_entries bs = concat (map (\<lambda>(l, m). map (\<lambda>(f, bp). (l, f, bp)) m) bs)"

definition resolved_entries :: "Impl \<Rightarrow> (nat \<times> string \<times> BreakPoint) list" where
  "resolved_entries s = store_entries (breakpoints s)"

definition resolved_list :: "Impl \<Rightarrow> BreakPoint list" where
  "resolved_list s = map (\<lambda>e. snd (snd e)) (resolved_entries s)"

text \<open>
  \<^verbatim>\<open>Server::GetBreakPoints\<close>: a resolution pass, then the resolved and the unresolved
  breakpoints, sorted by index with \<^verbatim>\<open>std::sort\<close> and \<^verbatim>\<open>SortBreakPoints\<close>. \<^verbatim>\<open>std::sort\<close> is not
  stable: the code does not fix the order of two breakpoints of one index. The sorting
  procedure is therefore a parameter, \<open>std_sort\<close>; \<open>sorts_by_index\<close> is all that the
  code promises of it.
\<close>

definition SortBreakPoints :: "BreakPoint \<Rightarrow> BreakPoint \<Rightarrow> bool" where
  "SortBreakPoints bp0 bp1 \<longleftrightarrow> index bp0 < index bp1"

definition sorts_by_index :: "(BreakPoint list \<Rightarrow> BreakPoint list) \<Rightarrow> bool" where
  "sorts_by_index std_sort \<longleftrightarrow>
     (\<forall>bps. mset (std_sort bps) = mset bps \<and>
            sorted_wrt (\<lambda>bp0 bp1. \<not> SortBreakPoints bp1 bp0) (std_sort bps))"

definition GetBreakPoints ::
  "(BreakPoint list \<Rightarrow> BreakPoint list) \<Rightarrow> Impl \<Rightarrow> BreakPoint list \<times> Impl" where
  "GetBreakPoints std_sort s0 =
     (let s = ResolveBreakPoints s0
      in (std_sort (resolved_list s @ unresolved_breakpoints s), s))"

section \<open>Halting and the accessors\<close>

definition ClearBreakData :: "Impl \<Rightarrow> Impl" where
  "ClearBreakData s =
     s\<lparr>frames := [], is_stopped := False, last_break_file_path := [], last_break_line := 0\<rparr>"

definition IsStopped :: "Impl \<Rightarrow> bool" where
  "IsStopped s = is_stopped s"

text \<open>
  \<^verbatim>\<open>Server::EvaluateExpression\<close>. \<^verbatim>\<open>EvaluateRubyExpression\<close> runs the engine: it is a
  parameter.
\<close>

definition EvaluateExpression :: "(string \<Rightarrow> VALUE \<Rightarrow> string) \<Rightarrow> string \<Rightarrow> Impl \<Rightarrow> string" where
  "EvaluateExpression EvaluateRubyExpression expr s =
     (if frames s \<noteq> [] \<and> active_frame_index s < length (frames s)
      then EvaluateRubyExpression expr (binding (frames s ! active_frame_index s))
      else ''Expression cannot be evaluated'')"

definition Server_GetStackFrames :: "Impl \<Rightarrow> StackFrame list" where
  "Server_GetStackFrames s = frames s"

definition ShiftActiveFrame :: "bool \<Rightarrow> Impl \<Rightarrow> Impl" where
  "ShiftActiveFrame shift_up s =
     (if IsStopped s then
        if shift_up then
          (if active_frame_index s + 1 < length (frames s)
           then s\<lparr>active_frame_index := active_frame_index s + 1\<rparr> else s)
        else
          (if active_frame_index s > 0
           then s\<lparr>active_frame_index := active_frame_index s - 1\<rparr> else s)
      else s)"

definition GetActiveFrameIndex :: "Impl \<Rightarrow> nat" where
  "GetActiveFrameIndex s = active_frame_index s"

definition Step :: "Impl \<Rightarrow> Impl" where
  "Step s = (if IsStopped s then s\<lparr>break_at_next_line := True\<rparr> else s)"

text \<open>
  \<^verbatim>\<open>Server::GetCodeLines\<close>. The loop reads \<^verbatim>\<open>lines_vec[i]\<close> for \<open>beg_line - 1 \<le> i < end_line\<close>
  only after \<open>end_line\<close> was cut to the size of the vector, and \<open>beg_line\<close> is at least 1
  when the loop runs, so every read is in range.
\<close>

definition GetCodeLines :: "nat \<Rightarrow> nat \<Rightarrow> Impl \<Rightarrow> (nat \<times> string) list \<times> Impl" where
  "GetCodeLines beg_line0 end_line0 s0 =
     (if IsStopped s0 then
        (let s = ReadScriptLinesHash s0 in
         case map_of (script_lines s) (last_break_file_path s) of
           None \<Rightarrow> ([], s)
         | Some lines_vec \<Rightarrow>
             (let expand_lines = 5;
                  beg_line = (if beg_line0 = 0
                              then (if last_break_line s > expand_lines
                                    then last_break_line s - expand_lines else 1)
                              else beg_line0);
                  end_line1 = (if end_line0 = 0 then last_break_line s + expand_lines
                               else end_line0);
                  end_line = (if end_line1 \<ge> length lines_vec + 1 then length lines_vec
                              else end_line1)
              in (if end_line \<ge> beg_line
                  then map (\<lambda>i. (i + 1, lines_vec ! i)) [beg_line - 1 ..< end_line]
                  else [], s)))
      else ([], s0))"

definition GetBreakLineNumber :: "Impl \<Rightarrow> nat" where
  "GetBreakLineNumber s = last_break_line s"

section \<open>The operator, the engine and the trace hook\<close>

text \<open>
  What reaches the state from outside the hook: the calls of the public interface that
  write to it, and the engine storing the lines of a file it has loaded in
  \<^verbatim>\<open>SCRIPT_LINES__\<close> (a Ruby hash keeps the place of a key it already holds).
  The calls that only read (\<^verbatim>\<open>IsStopped\<close>, \<^verbatim>\<open>EvaluateExpression\<close>, \<^verbatim>\<open>GetStackFrames\<close>,
  \<^verbatim>\<open>GetActiveFrameIndex\<close>, \<^verbatim>\<open>GetBreakLineNumber\<close>) are left out. The reply to
  \<^verbatim>\<open>GetBreakPoints\<close> is kept as the multiset of the breakpoints returned, which is the same
  whatever order \<^verbatim>\<open>std::sort\<close> leaves two breakpoints of one index in.
\<close>

datatype action =
    CallAddBreakPoint BreakPoint
  | CallRemoveBreakPoint nat
  | CallGetBreakPoints
  | CallShiftActiveFrame bool
  | CallStep
  | CallGetCodeLines nat nat
  | EngineLoad string "string list"

datatype reply =
    Added bool BreakPoint
  | Removed bool
  | BreakPoints "BreakPoint multiset"
  | CodeLines "(nat \<times> string) list"
  | NoReply

definition engine_load :: "string \<Rightarrow> string list \<Rightarrow> (string \<times> string list) list \<Rightarrow> (string \<times> string list) list" where
  "engine_load path ls h =
     (case map_of h path of
        Some _ \<Rightarrow> map (\<lambda>e. if fst e = path then (path, ls) else e) h
      | None \<Rightarrow> h @ [(path, ls)])"

fun run_action :: "action \<Rightarrow> Impl \<Rightarrow> reply \<times> Impl" where
  "run_action (CallAddBreakPoint bp) s =
     (Added (fst (Server_AddBreakPoint bp s)) (fst (snd (Server_AddBreakPoint bp s))),
      snd (snd (Server_AddBreakPoint bp s)))"
| "run_action (CallRemoveBreakPoint i) s =
     (Removed (fst (RemoveBreakPoint i s)), snd (RemoveBreakPoint i s))"
| "run_action CallGetBreakPoints s =
     (BreakPoints (mset (fst (GetBreakPoints id s))), snd (GetBreakPoints id s))"
| "run_action (CallShiftActiveFrame shift_up) s = (NoReply, ShiftActiveFrame shift_up s)"
| "run_action CallStep s = (NoReply, Step s)"
| "run_action (CallGetCodeLines b e) s =
     (CodeLines (fst (GetCodeLines b e s)), snd (GetCodeLines b e s))"
| "run_action (EngineLoad path ls) s =
     (NoReply, s\<lparr>script_lines_hash := engine_load path ls (script_lines_hash s)\<rparr>)"

fun run_actions :: "action list \<Rightarrow> Impl \<Rightarrow> Impl" where
  "run_actions [] s = s"
| "run_actions (a # as) s = run_actions as (snd (run_action a s))"

fun replies :: "action list \<Rightarrow> Impl \<Rightarrow> reply list" where
  "replies [] s = []"
| "replies (a # as) s = fst (run_action a s) # replies as (snd (run_action a s))"

text \<open>
  The UI collaborator (\<^verbatim>\<open>IDebuggerUI\<close>, as \<^verbatim>\<open>UI/ConsoleUI.h\<close> declares its methods). A call
  of the server into the UI returns when the operator lets the script go on; all the
  server sees of it is what happened to its state in between. The model of a UI gives,
  for each call, the actions carried out while the call lasts.
\<close>

datatype ui_call =
    Initialize
  | WaitForContinue
  | Break_bp BreakPoint
  | Break_line string nat

type_synonym debugger_ui = "ui_call \<Rightarrow> action list"

text \<open>
  The trace event. The line number is read with \<^verbatim>\<open>NUM2INT\<close> into an \<^verbatim>\<open>int\<close> and stored in
  a \<^verbatim>\<open>size_t\<close>; the engine numbers lines from 1, so it is a natural number here.
\<close>

datatype event_id =
  id_line | id_class | id_end | id_call | id_return | id_c_call | id_c_return | id_raise

record trace_arg =
  tp_event :: event_id
  tp_path :: string
  tp_lineno :: nat

text \<open>
  \<^verbatim>\<open>Server::Impl::TraceFunc\<close>, in two parts. \<open>TraceFunc_enter\<close> is the hook up to the
  point where it calls the UI (the call it makes, and the state at that moment) or
  returns without halting. \<open>engine_frames\<close> is what the static
  \<^verbatim>\<open>Server::Impl::GetStackFrames\<close> gets from the engine's inspector. \<open>TraceFunc\<close> is the
  whole hook: after the call to the UI returns, the break data is cleared.
\<close>

definition TraceFunc_enter :: "StackFrame list \<Rightarrow> trace_arg \<Rightarrow> Impl \<Rightarrow> ui_call option \<times> Impl" where
  "TraceFunc_enter engine_frames ta s0 =
     (let s = ClearBreakData s0;
          file_path = tp_path ta;
          ln = tp_lineno ta
      in if tp_event ta = id_line then
           if break_at_next_line s then
             (Some (Break_line file_path ln),
              s\<lparr>break_at_next_line := False, frames := engine_frames,
                last_break_file_path := file_path, last_break_line := ln,
                is_stopped := True\<rparr>)
           else
             (let s1 = (if unresolved_breakpoints s \<noteq> [] then ResolveBreakPoints s else s)
              in case GetBreakPoint file_path ln s1 of
                   Some bp \<Rightarrow>
                     (Some (Break_bp bp),
                      s1\<lparr>frames := engine_frames, last_break_file_path := file_path,
                         last_break_line := ln, is_stopped := True\<rparr>)
                 | None \<Rightarrow> (None, s1))
         else (None, s))"

definition TraceFunc :: "debugger_ui \<Rightarrow> StackFrame list \<Rightarrow> trace_arg \<Rightarrow> Impl \<Rightarrow> Impl" where
  "TraceFunc ui engine_frames ta s =
     (case fst (TraceFunc_enter engine_frames ta s) of
        None \<Rightarrow> snd (TraceFunc_enter engine_frames ta s)
      | Some c \<Rightarrow> ClearBreakData (run_actions (ui c) (snd (TraceFunc_enter engine_frames ta s))))"

text \<open>
  \<^verbatim>\<open>Server::Start\<close>: a fresh hash for the engine, the UI is initialised, the server is
  marked stopped and waits for the UI; then the break data is cleared.
\<close>

definition Start_enter :: "debugger_ui \<Rightarrow> Impl \<Rightarrow> Impl" where
  "Start_enter ui s = (run_actions (ui Initialize) (s\<lparr>script_lines_hash := []\<rparr>))\<lparr>is_stopped := True\<rparr>"

definition Start :: "debugger_ui \<Rightarrow> Impl \<Rightarrow> Impl" where
  "Start ui s = ClearBreakData (run_actions (ui WaitForContinue) (Start_enter ui s))"

text \<open>
  The states of a server between two function bodies: the state after construction, and
  every state that an action, the hook up to its halt, the start up to its wait, or the
  clearing of the break data on resumption leads to. Each function body is one step
  here, so these are the states in which no body is half-way through its writes; the
  states inside the bodies that write the break data are those of \<open>interleaved\<close>
  below.
\<close>

inductive reachable :: "Impl \<Rightarrow> bool" where
  reach_init: "reachable Impl_init"
| reach_action: "reachable s \<Longrightarrow> reachable (snd (run_action a s))"
| reach_start: "reachable s \<Longrightarrow> reachable (Start_enter ui s)"
| reach_trace: "reachable s \<Longrightarrow> reachable (snd (TraceFunc_enter engine_frames ta s))"
| reach_resume: "reachable s \<Longrightarrow> reachable (ClearBreakData s)"

section \<open>The two threads, write by write\<close>

text \<open>
  The hook, \<^verbatim>\<open>ClearBreakData\<close> and \<^verbatim>\<open>Server::Start\<close> run on the thread of the script; the
  calls of the public interface come from the thread of the UI, with no lock around the
  break data. A call of the UI thread can therefore fall between any two writes of the
  script's thread. Here the script's thread moves one write, one test or one pass over
  the store at a time.

  \<open>write_op\<close> is one assignment to a field (\<^verbatim>\<open>Server.cpp\<close> 226-229, 271-275, 286-289, 398,
  403), \<open>do_write\<close> carries it out.
\<close>

datatype write_op =
    W_frames "StackFrame list"
  | W_stopped bool
  | W_file string
  | W_line nat
  | W_step bool
  | W_hash "(string \<times> string list) list"

fun do_write :: "write_op \<Rightarrow> Impl \<Rightarrow> Impl" where
  "do_write (W_frames fs) s = s\<lparr>frames := fs\<rparr>"
| "do_write (W_stopped b) s = s\<lparr>is_stopped := b\<rparr>"
| "do_write (W_file f) s = s\<lparr>last_break_file_path := f\<rparr>"
| "do_write (W_line l) s = s\<lparr>last_break_line := l\<rparr>"
| "do_write (W_step b) s = s\<lparr>break_at_next_line := b\<rparr>"
| "do_write (W_hash h) s = s\<lparr>script_lines_hash := h\<rparr>"

text \<open>The writes of \<^verbatim>\<open>ClearBreakData\<close>, in the order of the source (226-229).\<close>

definition ClearBreakData_writes :: "write_op list" where
  "ClearBreakData_writes = [W_frames [], W_stopped False, W_file [], W_line 0]"

text \<open>
  The writes of the hook on the way into a halt, in the order of the source: for a step
  (271-275) and for a breakpoint (286-289). The stopped flag is the last of them.
\<close>

definition step_halt_writes :: "StackFrame list \<Rightarrow> trace_arg \<Rightarrow> write_op list" where
  "step_halt_writes engine_frames ta =
     [W_step False, W_frames engine_frames, W_file (tp_path ta), W_line (tp_lineno ta),
      W_stopped True]"

definition bp_halt_writes :: "StackFrame list \<Rightarrow> trace_arg \<Rightarrow> write_op list" where
  "bp_halt_writes engine_frames ta =
     [W_frames engine_frames, W_file (tp_path ta), W_line (tp_lineno ta), W_stopped True]"

text \<open>
  Where the script's thread is: outside the server (\<open>Idle\<close>, the script runs); before
  the next of a sequence of writes, with what follows them; in the hook after the
  first \<^verbatim>\<open>ClearBreakData\<close>, before the tests of the event and of \<^verbatim>\<open>break_at_next_line_\<close>
  (\<open>Decide\<close>); before the resolution pass and the lookup (\<open>Lookup\<close>); inside a call of
  the UI, with what follows its return.
\<close>

datatype pc =
    Idle
  | Writing "write_op list" pc
  | Decide "StackFrame list" trace_arg
  | Lookup "StackFrame list" trace_arg
  | InUI ui_call pc

definition TraceFunc_pc :: "StackFrame list \<Rightarrow> trace_arg \<Rightarrow> pc" where
  "TraceFunc_pc engine_frames ta = Writing ClearBreakData_writes (Decide engine_frames ta)"

definition Start_pc :: pc where
  "Start_pc =
     Writing [W_hash []]
       (InUI Initialize
          (Writing [W_stopped True]
             (InUI WaitForContinue (Writing ClearBreakData_writes Idle))))"

text \<open>One move of the script's thread. At \<open>InUI\<close> the move is the return of the call.\<close>

fun thread_step :: "pc \<Rightarrow> Impl \<Rightarrow> pc \<times> Impl" where
  "thread_step Idle s = (Idle, s)"
| "thread_step (Writing [] next) s = (next, s)"
| "thread_step (Writing (w # ws) next) s =
     ((if ws = [] then next else Writing ws next), do_write w s)"
| "thread_step (Decide engine_frames ta) s =
     (if tp_event ta = id_line then
        if break_at_next_line s then
          (Writing (step_halt_writes engine_frames ta)
             (InUI (Break_line (tp_path ta) (tp_lineno ta)) (Writing ClearBreakData_writes Idle)),
           s)
        else (Lookup engine_frames ta, s)
      else (Idle, s))"
| "thread_step (Lookup engine_frames ta) s =
     (let s1 = (if unresolved_breakpoints s \<noteq> [] then ResolveBreakPoints s else s)
      in case GetBreakPoint (tp_path ta) (tp_lineno ta) s1 of
           Some bp \<Rightarrow>
             (Writing (bp_halt_writes engine_frames ta)
                (InUI (Break_bp bp) (Writing ClearBreakData_writes Idle)),
              s1)
         | None \<Rightarrow> (Idle, s1))"
| "thread_step (InUI c next) s = (next, s)"

primrec thread_run :: "nat \<Rightarrow> pc \<times> Impl \<Rightarrow> pc \<times> Impl" where
  "thread_run 0 c = c"
| "thread_run (Suc n) c = thread_run n (thread_step (fst c) (snd c))"

text \<open>
  The states of the two threads together: an action of the UI thread (or a load by the
  engine) can come at any place of the script's thread, and is taken as one step; the
  hook and the start begin where the script's thread is outside the server.
\<close>

inductive interleaved :: "pc \<times> Impl \<Rightarrow> bool" where
  il_init: "interleaved (Idle, Impl_init)"
| il_action: "interleaved (p, s) \<Longrightarrow> interleaved (p, snd (run_action a s))"
| il_start: "interleaved (Idle, s) \<Longrightarrow> interleaved (Start_pc, s)"
| il_event: "interleaved (Idle, s) \<Longrightarrow> interleaved (TraceFunc_pc engine_frames ta, s)"
| il_thread: "interleaved (p, s) \<Longrightarrow> interleaved (thread_step p s)"

text \<open>The script's thread is in the middle of a sequence of writes.\<close>

fun in_writes :: "pc \<Rightarrow> bool" where
  "in_writes (Writing ws next) = True"
| "in_writes p = False"

text \<open>
  A schedule of the two threads, to run the model on: a move of the script's thread, an
  action, the delivery of an event, the call of \<^verbatim>\<open>Server::Start\<close>.
\<close>

datatype move =
    Thread
  | Act action
  | Event "StackFrame list" trace_arg
  | CallStart

fun run_move :: "move \<Rightarrow> pc \<times> Impl \<Rightarrow> (pc \<times> Impl) option" where
  "run_move Thread (p, s) = Some (thread_step p s)"
| "run_move (Act a) (p, s) = Some (p, snd (run_action a s))"
| "run_move (Event engine_frames ta) (p, s) =
     (if p = Idle then Some (TraceFunc_pc engine_frames ta, s) else None)"
| "run_move CallStart (p, s) = (if p = Idle then Some (Start_pc, s) else None)"

fun run_moves :: "move list \<Rightarrow> pc \<times> Impl \<Rightarrow> (pc \<times> Impl) option" where
  "run_moves [] c = Some c"
| "run_moves (m # ms) c = (case run_move m c of None \<Rightarrow> None | Some c' \<Rightarrow> run_moves ms c')"

section \<open>Invariants and observations\<close>

text \<open>
  What the map of resolved breakpoints satisfies as a \<^verbatim>\<open>std::map\<close> of \<^verbatim>\<open>std::map\<close>s filled
  by \<^verbatim>\<open>AddBreakPoint\<close>: no key twice, and every breakpoint under its own line and file.
\<close>

definition store_ok :: "(nat, (string, BreakPoint) std_map) std_map \<Rightarrow> bool" where
  "store_ok bs \<longleftrightarrow>
     distinct (map fst bs) \<and>
     (\<forall>e \<in> set bs.
        distinct (map fst (snd e)) \<and>
        (\<forall>x \<in> set (snd e). line (snd x) = fst e \<and> file' (snd x) = fst x))"

definition store_inv :: "Impl \<Rightarrow> bool" where
  "store_inv s \<longleftrightarrow> store_ok (breakpoints s)"

text \<open>
  The lists that stand for maps are in the order of their keys, as a \<^verbatim>\<open>std::map\<close> is
  walked, and no line of the store has an empty inner map.
\<close>

definition maps_sorted :: "Impl \<Rightarrow> bool" where
  "maps_sorted s \<longleftrightarrow>
     sorted (map fst (script_lines s)) \<and> distinct (map fst (script_lines s)) \<and>
     sorted (map fst (breakpoints s)) \<and>
     (\<forall>e \<in> set (breakpoints s). sorted (map fst (snd e)) \<and> snd e \<noteq> [])"

text \<open>The fields of a halt: none of the store operations writes to them.\<close>

definition halt_fields :: "Impl \<Rightarrow> bool \<times> bool \<times> StackFrame list \<times> nat \<times> string \<times> nat" where
  "halt_fields s =
     (is_stopped s, break_at_next_line s, frames s, active_frame_index s,
      last_break_file_path s, last_break_line s)"

text \<open>The invariant of the running state: no frames, no break file, no break line.\<close>

definition running_clear :: "Impl \<Rightarrow> bool" where
  "running_clear s \<longleftrightarrow>
     (\<not> is_stopped s \<longrightarrow> frames s = [] \<and> last_break_file_path s = [] \<and> last_break_line s = 0)"

text \<open>
  The four fields that \<^verbatim>\<open>ClearBreakData\<close> writes. No call of the UI thread writes to them.
\<close>

definition break_data :: "Impl \<Rightarrow> bool \<times> StackFrame list \<times> string \<times> nat" where
  "break_data s = (is_stopped s, frames s, last_break_file_path s, last_break_line s)"

text \<open>
  What holds of the break data at each place of the script's thread: outside a
  sequence of writes the invariant of the running state, and before a sequence of
  writes whatever makes it hold once they are done.
\<close>

fun pc_ok :: "pc \<Rightarrow> Impl \<Rightarrow> bool" where
  "pc_ok Idle s = running_clear s"
| "pc_ok (Writing ws next) s = pc_ok next (fold do_write ws s)"
| "pc_ok (Decide engine_frames ta) s = running_clear s"
| "pc_ok (Lookup engine_frames ta) s = running_clear s"
| "pc_ok (InUI c next) s = (running_clear s \<and> pc_ok next s)"

text \<open>
  What an observer of a sequence of actions sees of the indices: the breakpoints handed
  to \<^verbatim>\<open>AddBreakPoint\<close>, the indices with which they come back, and the indices of the
  breakpoints the server holds.
\<close>

fun adds :: "action list \<Rightarrow> BreakPoint list" where
  "adds [] = []"
| "adds (CallAddBreakPoint bp # as) = bp # adds as"
| "adds (a # as) = adds as"

fun added_indices :: "reply list \<Rightarrow> nat list" where
  "added_indices [] = []"
| "added_indices (Added ok bp # rs) = index bp # added_indices rs"
| "added_indices (r # rs) = added_indices rs"

definition stored_indices :: "Impl \<Rightarrow> nat list" where
  "stored_indices s = map index (resolved_list s @ unresolved_breakpoints s)"

text \<open>Every unresolved breakpoint has been given an index.\<close>

definition indexed :: "Impl \<Rightarrow> bool" where
  "indexed s \<longleftrightarrow> (\<forall>bp \<in> set (unresolved_breakpoints s). index bp \<noteq> 0)"

section \<open>Sample inputs\<close>

text \<open>Concrete states and calls at which the properties below are evaluated.\<close>

definition sample_registry_state :: Impl where
  "sample_registry_state =
     Impl_init\<lparr>script_lines :=
       [(''/lib/Foo.rb'', [''a'', ''b'']),
        (''/lib/foo_bar.rb'', [''a'', ''b'', ''c'']),
        (''/lib/foo_baz.rb'', [''a'', ''b'', ''c''])]\<rparr>"

text \<open>
  A session: the operator asks for a step while the server waits at the start; at the
  halt of the first line event, with three frames, the operator moves the cursor two
  frames towards the older ones and asks for a step again; the second line event halts
  with one frame.
\<close>

definition sample_ui :: debugger_ui where
  "sample_ui c =
     (case c of
        Initialize \<Rightarrow> []
      | WaitForContinue \<Rightarrow> [CallStep]
      | Break_bp bp \<Rightarrow> []
      | Break_line f l \<Rightarrow> [CallShiftActiveFrame True, CallShiftActiveFrame True, CallStep])"

definition sample_frames :: "StackFrame list" where
  "sample_frames =
     [\<lparr>name = ''a.rb:7'', binding = 1\<rparr>, \<lparr>name = ''a.rb:3'', binding = 2\<rparr>,
      \<lparr>name = ''main'', binding = 3\<rparr>]"

definition sample_event :: trace_arg where
  "sample_event = \<lparr>tp_event = id_line, tp_path = ''a.rb'', tp_lineno = 7\<rparr>"

definition state_started :: Impl where
  "state_started = Start sample_ui Impl_init"

definition state_first_halt :: Impl where
  "state_first_halt = snd (TraceFunc_enter sample_frames sample_event state_started)"

definition state_resumed :: Impl where
  "state_resumed = TraceFunc sample_ui sample_frames sample_event state_started"

definition state_second_halt :: Impl where
  "state_second_halt =
     snd (TraceFunc_enter [\<lparr>name = ''b.rb:1'', binding = 4\<rparr>]
            \<lparr>tp_event = id_line, tp_path = ''b.rb'', tp_lineno = 1\<rparr> state_resumed)"

text \<open>
  The same session write by write, up to the second write of the hook on its way into
  the first halt (\<open>moves_frames_written\<close>), up to the halt (\<open>moves_first_halt\<close>), up to
  the second write of \<^verbatim>\<open>ClearBreakData\<close> after the halt (\<open>moves_flag_cleared\<close>), up to
  its end (\<open>moves_resumed\<close>) and up to the second halt (\<open>moves_second_halt\<close>).
\<close>

definition moves_started :: "move list" where
  "moves_started =
     [CallStart, Thread, Thread, Thread, Act CallStep, Thread, Thread, Thread, Thread, Thread]"

definition moves_frames_written :: "move list" where
  "moves_frames_written =
     moves_started @
     [Event sample_frames sample_event, Thread, Thread, Thread, Thread, Thread, Thread, Thread]"

definition moves_first_halt :: "move list" where
  "moves_first_halt = moves_frames_written @ [Thread, Thread, Thread]"

definition moves_flag_cleared :: "move list" where
  "moves_flag_cleared =
     moves_first_halt @
     [Act (CallShiftActiveFrame True), Act (CallShiftActiveFrame True), Act CallStep,
      Thread, Thread, Thread]"

definition moves_resumed :: "move list" where
  "moves_resumed = moves_flag_cleared @ [Thread, Thread]"

definition moves_second_halt :: "move list" where
  "moves_second_halt =
     moves_resumed @
     [Event [\<lparr>name = ''b.rb:1'', binding = 4\<rparr>] \<lparr>tp_event = id_line, tp_path = ''b.rb'', tp_lineno = 1\<rparr>,
      Thread, Thread, Thread, Thread, Thread, Thread, Thread, Thread, Thread, Thread]"

definition state_frames_written :: Impl where
  "state_frames_written = state_started\<lparr>break_at_next_line := False, frames := sample_frames\<rparr>"

definition state_flag_cleared :: Impl where
  "state_flag_cleared = state_first_halt\<lparr>active_frame_index := 2, break_at_next_line := True, frames := [], is_stopped := False\<rparr>"

text \<open>A halt at line 2 of a file of twenty lines that the engine has reported.\<close>

definition twenty_lines :: "string list" where
  "twenty_lines =
     [''l01'', ''l02'', ''l03'', ''l04'', ''l05'', ''l06'', ''l07'', ''l08'', ''l09'', ''l10'',
      ''l11'', ''l12'', ''l13'', ''l14'', ''l15'', ''l16'', ''l17'', ''l18'', ''l19'', ''l20'']"

definition state_line2 :: Impl where
  "state_line2 =
     Impl_init\<lparr>script_lines_hash := [(''a.rb'', twenty_lines)], is_stopped := True,
               last_break_file_path := ''a.rb'', last_break_line := 2\<rparr>"

text \<open>
  A store with three resolved breakpoints on two lines and two unresolved ones; the
  second unresolved one was added with the index 2 already set.
\<close>

definition state_store :: Impl where
  "state_store =
     Impl_init\<lparr>
       unresolved_breakpoints :=
         [\<lparr>index = 4, file' = ''x.rb'', line = 5\<rparr>, \<lparr>index = 2, file' = ''y.rb'', line = 6\<rparr>],
       breakpoints :=
         [(1, [(''a.rb'', \<lparr>index = 1, file' = ''a.rb'', line = 1\<rparr>)]),
          (3, [(''a.rb'', \<lparr>index = 2, file' = ''a.rb'', line = 3\<rparr>),
               (''b.rb'', \<lparr>index = 3, file' = ''b.rb'', line = 3\<rparr>)])],
       last_breakpoint_index := 4\<rparr>"

text \<open>
  A server whose engine has loaded one file of two lines, and to which a breakpoint at
  line 1 of that file has been added.
\<close>

definition state_loaded :: Impl where
  "state_loaded = snd (run_action (EngineLoad ''a.rb'' [''x'', ''y'']) Impl_init)"

definition state_one_bp :: Impl where
  "state_one_bp =
     snd (run_action (CallAddBreakPoint \<lparr>index = 0, file' = ''a.rb'', line = 1\<rparr>) state_loaded)"

text \<open>
  A breakpoint for line 1 of \<^verbatim>\<open>a.rb\<close> added before the engine has loaded the file, and a
  second one for the same line added after.
\<close>

definition late_calls :: "action list" where
  "late_calls =
     [CallAddBreakPoint \<lparr>index = 0, file' = ''a.rb'', line = 1\<rparr>,
      EngineLoad ''a.rb'' [''x'', ''y''],
      CallAddBreakPoint \<lparr>index = 0, file' = ''a.rb'', line = 1\<rparr>]"

definition state_late :: Impl where
  "state_late = run_actions late_calls Impl_init"

text \<open>A server just constructed, whose engine has loaded the files \<open>h\<close>.\<close>

definition fresh_server :: "(string \<times> string list) list \<Rightarrow> Impl" where
  "fresh_server h = Impl_init\<lparr>script_lines_hash := h\<rparr>"

text \<open>
  Three additions of which the third names, in capitals, the file and line of the
  first, followed by the removal of index 2.
\<close>

definition colliding_calls :: "action list" where
  "colliding_calls =
     [CallAddBreakPoint \<lparr>index = 0, file' = ''a.rb'', line = 1\<rparr>,
      CallAddBreakPoint \<lparr>index = 0, file' = ''a.rb'', line = 2\<rparr>,
      CallAddBreakPoint \<lparr>index = 0, file' = ''A.RB'', line = 1\<rparr>,
      CallRemoveBreakPoint 2]"

text \<open>
  The server with one loaded file after breakpoints at its lines 1 and 2 have been
  added, and the same server after 18446744073709551614 further additions at line 1
  (the counter stands at \<open>2 ^ 64 - 1\<close>).
\<close>

definition state_two_bp :: Impl where
  "state_two_bp =
     snd (run_action (CallAddBreakPoint \<lparr>index = 0, file' = ''a.rb'', line = 2\<rparr>) state_one_bp)"

definition state_counter_full :: Impl where
  "state_counter_full =
     ((\<lambda>s. snd (run_action (CallAddBreakPoint \<lparr>index = 0, file' = ''a.rb'', line = 1\<rparr>) s))
        ^^ 18446744073709551614) state_one_bp"

text \<open>
  Additions at lines 1, 2 and 3 of the loaded file (which has two lines, so the third
  stays unresolved), the removal of index 2, and one more addition.
\<close>

definition sample_calls :: "action list" where
  "sample_calls =
     [CallAddBreakPoint \<lparr>index = 0, file' = ''a.rb'', line = 1\<rparr>,
      CallAddBreakPoint \<lparr>index = 0, file' = ''a.rb'', line = 2\<rparr>,
      CallAddBreakPoint \<lparr>index = 0, file' = ''a.rb'', line = 3\<rparr>,
      CallRemoveBreakPoint 2,
      CallAddBreakPoint \<lparr>index = 0, file' = ''b.rb'', line = 1\<rparr>]"

section \<open>Properties\<close>

subsection \<open>Resolution\<close>

text \<open>
  What a result \<open>\<ge> 0\<close> of the search means: the second string, letters folded to one
  case, occurs in the first.
\<close>

lemma ci_prefix_iff:
  "ci_prefix n h \<longleftrightarrow> (\<exists>post. map to_upper h = map to_upper n @ post)"
proof (induction n h rule: ci_prefix.induct)
  case (1 hay)
  then show ?case by simp
next
  case (2 n ns)
  then show ?case by simp
next
  case (3 n ns h hs)
  then show ?case by auto
qed

lemma ci_search_found:
  "0 \<le> ci_search h n pos \<longleftrightarrow> (\<exists>pre post. map to_upper h = pre @ map to_upper n @ post)"
proof (induction h n pos rule: ci_search.induct)
  case (1 needle pos)
  then show ?case by (cases needle) auto
next
  case (2 h hs needle pos)
  show ?case
  proof (cases "ci_prefix needle (h # hs)")
    case True
    then obtain post where "map to_upper (h # hs) = map to_upper needle @ post"
      using ci_prefix_iff by blast
    then have "map to_upper (h # hs) = [] @ map to_upper needle @ post" by simp
    then have "\<exists>pre post. map to_upper (h # hs) = pre @ map to_upper needle @ post" by blast
    with True show ?thesis by simp
  next
    case False
    have "(\<exists>pre post. map to_upper (h # hs) = pre @ map to_upper needle @ post)
          \<longleftrightarrow> (\<exists>pre post. map to_upper hs = pre @ map to_upper needle @ post)"
    proof
      assume "\<exists>pre post. map to_upper (h # hs) = pre @ map to_upper needle @ post"
      then obtain pre post where eq: "map to_upper (h # hs) = pre @ map to_upper needle @ post"
        by blast
      show "\<exists>pre post. map to_upper hs = pre @ map to_upper needle @ post"
      proof (cases pre)
        case Nil
        with eq have "ci_prefix needle (h # hs)" using ci_prefix_iff by auto
        with False show ?thesis by simp
      next
        case (Cons p ps)
        with eq have "map to_upper hs = ps @ map to_upper needle @ post" by simp
        then show ?thesis by blast
      qed
    next
      assume "\<exists>pre post. map to_upper hs = pre @ map to_upper needle @ post"
      then obtain pre post where "map to_upper hs = pre @ map to_upper needle @ post" by blast
      then have "map to_upper (h # hs) = (to_upper h # pre) @ map to_upper needle @ post" by simp
      then show "\<exists>pre post. map to_upper (h # hs) = pre @ map to_upper needle @ post" by blast
    qed
    with False 2 show ?thesis by simp
  qed
qed

lemma FindSubstringCaseInsensitive_found:
  "0 \<le> FindSubstringCaseInsensitive str1 str2 \<longleftrightarrow>
     (\<exists>pre post. map to_upper str1 = pre @ map to_upper str2 @ post)"
  by (simp add: FindSubstringCaseInsensitive_def ci_search_found)

lemma ResolveBreakPoint_loop_False:
  "\<not> fst (ResolveBreakPoint_loop m bp) \<Longrightarrow>
     ResolveBreakPoint_loop m bp = (False, bp) \<and>
     (\<forall>e \<in> set m. \<not> (0 \<le> FindSubstringCaseInsensitive (fst e) (file' bp) \<and> line bp \<le> length (snd e)))"
  by (induction m bp rule: ResolveBreakPoint_loop.induct) (auto split: if_splits)

lemma ResolveBreakPoint_loop_True:
  "fst (ResolveBreakPoint_loop m bp) \<Longrightarrow>
     \<exists>pre e post. m = pre @ e # post \<and>
       (\<forall>x \<in> set pre. \<not> (0 \<le> FindSubstringCaseInsensitive (fst x) (file' bp) \<and> line bp \<le> length (snd x))) \<and>
       0 \<le> FindSubstringCaseInsensitive (fst e) (file' bp) \<and> line bp \<le> length (snd e) \<and>
       ResolveBreakPoint_loop m bp = (True, bp\<lparr>file' := fst e\<rparr>)"
proof (induction m bp rule: ResolveBreakPoint_loop.induct)
  case (1 bp)
  then show ?case by simp
next
  case (2 file_path lines_vec rest bp)
  let ?Q = "\<lambda>x. 0 \<le> FindSubstringCaseInsensitive (fst x) (file' bp) \<and> line bp \<le> length (snd x)"
  show ?case
  proof (cases "?Q (file_path, lines_vec)")
    case True
    then have "ResolveBreakPoint_loop ((file_path, lines_vec) # rest) bp = (True, bp\<lparr>file' := file_path\<rparr>)"
      by simp
    with True have "(file_path, lines_vec) # rest = [] @ (file_path, lines_vec) # rest \<and>
       (\<forall>x \<in> set []. \<not> ?Q x) \<and> ?Q (file_path, lines_vec) \<and>
       ResolveBreakPoint_loop ((file_path, lines_vec) # rest) bp = (True, bp\<lparr>file' := fst (file_path, lines_vec)\<rparr>)"
      by simp
    then show ?thesis by blast
  next
    case False
    then have eq: "ResolveBreakPoint_loop ((file_path, lines_vec) # rest) bp = ResolveBreakPoint_loop rest bp"
      by auto
    with 2 False have "\<exists>pre e post. rest = pre @ e # post \<and> (\<forall>x \<in> set pre. \<not> ?Q x) \<and> ?Q e \<and>
       ResolveBreakPoint_loop rest bp = (True, bp\<lparr>file' := fst e\<rparr>)"
      by auto
    then obtain pre e post where r: "rest = pre @ e # post" "\<forall>x \<in> set pre. \<not> ?Q x" "?Q e"
       "ResolveBreakPoint_loop rest bp = (True, bp\<lparr>file' := fst e\<rparr>)" by blast
    from r False eq have "(file_path, lines_vec) # rest = ((file_path, lines_vec) # pre) @ e # post \<and>
       (\<forall>x \<in> set ((file_path, lines_vec) # pre). \<not> ?Q x) \<and> ?Q e \<and>
       ResolveBreakPoint_loop ((file_path, lines_vec) # rest) bp = (True, bp\<lparr>file' := fst e\<rparr>)"
      by simp
    then show ?thesis by blast
  qed
qed

text \<open>
  C1. A resolution attempt succeeds exactly when some path of the registry contains the
  breakpoint's file text (\<^verbatim>\<open>FindSubstringCaseInsensitive\<close> gives a position) and has at
  least as many lines as the breakpoint's line number. It then takes the first such
  entry in the registry's iteration order, all entries before it failing the test, and
  writes its path into the breakpoint's file field; otherwise the breakpoint comes
  back as it was.
\<close>

theorem ResolveBreakPoint_first_match:
  "(fst (ResolveBreakPoint s bp) \<longleftrightarrow>
      (\<exists>e \<in> set (script_lines s).
         0 \<le> FindSubstringCaseInsensitive (fst e) (file' bp) \<and> line bp \<le> length (snd e))) \<and>
   (fst (ResolveBreakPoint s bp) \<longrightarrow>
      (\<exists>pre e post. script_lines s = pre @ e # post \<and>
         (\<forall>x \<in> set pre. \<not> (0 \<le> FindSubstringCaseInsensitive (fst x) (file' bp) \<and>
                               line bp \<le> length (snd x))) \<and>
         0 \<le> FindSubstringCaseInsensitive (fst e) (file' bp) \<and> line bp \<le> length (snd e) \<and>
         snd (ResolveBreakPoint s bp) = bp\<lparr>file' := fst e\<rparr>)) \<and>
   (\<not> fst (ResolveBreakPoint s bp) \<longrightarrow> snd (ResolveBreakPoint s bp) = bp)"
proof (cases "fst (ResolveBreakPoint s bp)")
  case True
  then have "fst (ResolveBreakPoint_loop (script_lines s) bp)" by (simp add: ResolveBreakPoint_def)
  from ResolveBreakPoint_loop_True [OF this] obtain pre e post where
    r: "script_lines s = pre @ e # post"
       "\<forall>x \<in> set pre. \<not> (0 \<le> FindSubstringCaseInsensitive (fst x) (file' bp) \<and> line bp \<le> length (snd x))"
       "0 \<le> FindSubstringCaseInsensitive (fst e) (file' bp)" "line bp \<le> length (snd e)"
       "ResolveBreakPoint_loop (script_lines s) bp = (True, bp\<lparr>file' := fst e\<rparr>)"
    by blast
  from r have "e \<in> set (script_lines s)" by simp
  with r have ex: "\<exists>e \<in> set (script_lines s).
         0 \<le> FindSubstringCaseInsensitive (fst e) (file' bp) \<and> line bp \<le> length (snd e)" by blast
  from r have "\<exists>pre e post. script_lines s = pre @ e # post \<and>
         (\<forall>x \<in> set pre. \<not> (0 \<le> FindSubstringCaseInsensitive (fst x) (file' bp) \<and>
                               line bp \<le> length (snd x))) \<and>
         0 \<le> FindSubstringCaseInsensitive (fst e) (file' bp) \<and> line bp \<le> length (snd e) \<and>
         snd (ResolveBreakPoint s bp) = bp\<lparr>file' := fst e\<rparr>"
    unfolding ResolveBreakPoint_def by (metis snd_conv)
  with True ex show ?thesis by simp
next
  case False
  then have "\<not> fst (ResolveBreakPoint_loop (script_lines s) bp)" by (simp add: ResolveBreakPoint_def)
  from ResolveBreakPoint_loop_False [OF this] False show ?thesis
    by (simp add: ResolveBreakPoint_def)
qed

theorem ResolveBreakPoint_first_match_witness:
  "fst (ResolveBreakPoint sample_registry_state \<lparr>index = 0, file' = ''FOO'', line = 3\<rparr>) \<and>
   snd (ResolveBreakPoint sample_registry_state \<lparr>index = 0, file' = ''FOO'', line = 3\<rparr>) =
     \<lparr>index = 0, file' = ''/lib/foo_bar.rb'', line = 3\<rparr> \<and>
   \<not> fst (ResolveBreakPoint sample_registry_state \<lparr>index = 0, file' = ''FOO'', line = 4\<rparr>)"
  using ResolveBreakPoint_first_match
          [of sample_registry_state "\<lparr>index = 0, file' = ''FOO'', line = 3\<rparr>"]
  by (simp add: ResolveBreakPoint_def FindSubstringCaseInsensitive_def to_upper_def
        sample_registry_state_def Impl_init_def)

subsection \<open>What the store operations leave alone\<close>

lemma halt_fields_ReadScriptLinesHash [simp]:
  "halt_fields (ReadScriptLinesHash s) = halt_fields s"
  by (simp add: halt_fields_def ReadScriptLinesHash_def)

lemma halt_fields_Impl_AddBreakPoint [simp]:
  "halt_fields (snd (Impl_AddBreakPoint bp r s)) = halt_fields s"
  by (simp add: halt_fields_def Impl_AddBreakPoint_def Let_def)

lemma halt_fields_ResolveBreakPoints_loop [simp]:
  "halt_fields (ResolveBreakPoints_loop kept u s) = halt_fields s"
proof (induction kept u s rule: ResolveBreakPoints_loop.induct)
  case (1 kept s)
  then show ?case by (simp add: halt_fields_def)
next
  case (2 kept bp rest s)
  then show ?case by simp
qed

lemma halt_fields_ResolveBreakPoints [simp]:
  "halt_fields (ResolveBreakPoints s) = halt_fields s"
  by (simp add: ResolveBreakPoints_def Let_def)

lemma halt_fields_Server_AddBreakPoint [simp]:
  "halt_fields (snd (snd (Server_AddBreakPoint bp s))) = halt_fields s"
  by (simp add: Server_AddBreakPoint_def Let_def)

lemma halt_fields_RemoveBreakPoint [simp]:
  "halt_fields (snd (RemoveBreakPoint i s)) = halt_fields s"
  by (simp add: RemoveBreakPoint_def halt_fields_def split: option.splits)

lemma halt_fields_GetBreakPoints [simp]:
  "halt_fields (snd (GetBreakPoints std_sort s)) = halt_fields s"
  by (simp add: GetBreakPoints_def Let_def)

lemma halt_fields_GetCodeLines [simp]:
  "halt_fields (snd (GetCodeLines b e s)) = halt_fields s"
  by (simp add: GetCodeLines_def Let_def split: option.splits)

lemma running_clear_halt_fields:
  "halt_fields s' = halt_fields s \<Longrightarrow> running_clear s \<Longrightarrow> running_clear s'"
  by (simp add: halt_fields_def running_clear_def)

lemma running_clear_run_action:
  "running_clear s \<Longrightarrow> running_clear (snd (run_action a s))"
proof (cases a)
  case (CallShiftActiveFrame up)
  assume "running_clear s"
  with CallShiftActiveFrame show ?thesis
    by (simp add: running_clear_def ShiftActiveFrame_def IsStopped_def)
next
  case CallStep
  assume "running_clear s"
  with CallStep show ?thesis by (simp add: running_clear_def Step_def IsStopped_def)
next
  case (EngineLoad p ls)
  assume "running_clear s"
  with EngineLoad show ?thesis by (simp add: running_clear_def)
qed (auto elim: running_clear_halt_fields [rotated])

lemma running_clear_ClearBreakData: "running_clear (ClearBreakData s)"
  by (simp add: running_clear_def ClearBreakData_def)

lemma running_clear_TraceFunc_enter:
  "running_clear (snd (TraceFunc_enter fr ta s))"
proof -
  have c: "halt_fields (ResolveBreakPoints (ClearBreakData s)) = halt_fields (ClearBreakData s)"
    by simp
  then have "running_clear (ResolveBreakPoints (ClearBreakData s))"
    using running_clear_ClearBreakData running_clear_halt_fields by blast
  then show ?thesis
    using running_clear_ClearBreakData [of s]
    by (auto simp: TraceFunc_enter_def Let_def running_clear_def split: option.splits)
qed

lemma reachable_running_clear: "reachable s \<Longrightarrow> running_clear s"
proof (induction rule: reachable.induct)
  case reach_init
  then show ?case by (simp add: running_clear_def Impl_init_def)
next
  case (reach_action s a)
  then show ?case by (simp add: running_clear_run_action)
next
  case (reach_start s ui)
  then show ?case by (simp add: running_clear_def Start_enter_def)
next
  case (reach_trace s engine_frames ta)
  then show ?case by (simp add: running_clear_TraceFunc_enter)
next
  case (reach_resume s)
  then show ?case by (simp add: running_clear_ClearBreakData)
qed

lemma reachable_run_actions: "reachable s \<Longrightarrow> reachable (run_actions as s)"
  by (induction as arbitrary: s) (auto intro: reach_action)

lemma reachable_TraceFunc: "reachable s \<Longrightarrow> reachable (TraceFunc ui fr ta s)"
  by (auto simp: TraceFunc_def split: option.splits
           intro: reach_trace reach_resume reachable_run_actions)

lemma reachable_Start: "reachable s \<Longrightarrow> reachable (Start ui s)"
  by (auto simp: Start_def intro: reach_start reach_resume reachable_run_actions)

subsection \<open>Listing the breakpoints\<close>

text \<open>
  A stable sort by index is one procedure that \<^verbatim>\<open>std::sort\<close> may be; whatever the procedure,
  the breakpoints returned and the state left are the same.
\<close>

lemma sorts_by_index_sort_key: "sorts_by_index (sort_key index)"
  unfolding sorts_by_index_def SortBreakPoints_def
  by (auto simp: not_less sorted_wrt_map[symmetric] simp del: sorted_wrt_map)

lemma GetBreakPoints_any_sort:
  assumes "sorts_by_index std_sort"
  shows "mset (fst (GetBreakPoints std_sort s)) = mset (fst (GetBreakPoints id s))"
    and "snd (GetBreakPoints std_sort s) = snd (GetBreakPoints id s)"
  using assms by (simp_all add: GetBreakPoints_def Let_def sorts_by_index_def)

subsection \<open>The two threads\<close>

text \<open>
  Run without an action in between, the writes of \<^verbatim>\<open>ClearBreakData\<close> and the moves of the
  hook are the functions \<open>ClearBreakData\<close> and \<open>TraceFunc_enter\<close>.
\<close>

lemma thread_run_ClearBreakData:
  "thread_run 4 (Writing ClearBreakData_writes next, s) = (next, ClearBreakData s)"
  by (simp add: eval_nat_numeral ClearBreakData_writes_def ClearBreakData_def)

lemma thread_run_add: "thread_run (m + n) c = thread_run n (thread_run m c)"
  by (induction m arbitrary: c) simp_all

lemma thread_run_TraceFunc_pc:
  "\<exists>n. thread_run n (TraceFunc_pc engine_frames ta, s) =
     ((case fst (TraceFunc_enter engine_frames ta s) of
         None \<Rightarrow> Idle
       | Some c \<Rightarrow> InUI c (Writing ClearBreakData_writes Idle)),
      snd (TraceFunc_enter engine_frames ta s))"
proof -
  let ?c = "ClearBreakData s"
  have start: "thread_run (4 + n) (TraceFunc_pc engine_frames ta, s) =
      thread_run n (Decide engine_frames ta, ?c)" for n
    unfolding thread_run_add TraceFunc_pc_def thread_run_ClearBreakData ..
  show ?thesis
  proof (cases "tp_event ta = id_line")
    case False
    then have "thread_run (4 + 1) (TraceFunc_pc engine_frames ta, s) =
        (Idle, snd (TraceFunc_enter engine_frames ta s))"
      unfolding start by (simp add: TraceFunc_enter_def Let_def)
    moreover from False have "fst (TraceFunc_enter engine_frames ta s) = None"
      by (simp add: TraceFunc_enter_def Let_def)
    ultimately show ?thesis by (metis option.simps(4))
  next
    case line: True
    show ?thesis
    proof (cases "break_at_next_line ?c")
      case True
      with line have "thread_run (4 + 6) (TraceFunc_pc engine_frames ta, s) =
        (InUI (Break_line (tp_path ta) (tp_lineno ta)) (Writing ClearBreakData_writes Idle),
         snd (TraceFunc_enter engine_frames ta s))"
        unfolding start
        by (simp add: eval_nat_numeral TraceFunc_enter_def Let_def step_halt_writes_def)
      moreover from line True have "fst (TraceFunc_enter engine_frames ta s) =
          Some (Break_line (tp_path ta) (tp_lineno ta))"
        by (simp add: TraceFunc_enter_def Let_def)
      ultimately show ?thesis by (metis option.simps(5))
    next
      case False
      define s1 where "s1 = (if unresolved_breakpoints ?c \<noteq> [] then ResolveBreakPoints ?c else ?c)"
      show ?thesis
      proof (cases "GetBreakPoint (tp_path ta) (tp_lineno ta) s1")
        case None
        with line False have "thread_run (4 + 2) (TraceFunc_pc engine_frames ta, s) =
          (Idle, snd (TraceFunc_enter engine_frames ta s))"
          unfolding start s1_def
          by (simp add: eval_nat_numeral TraceFunc_enter_def Let_def)
        moreover from line False None have "fst (TraceFunc_enter engine_frames ta s) = None"
          unfolding s1_def by (simp add: TraceFunc_enter_def Let_def)
        ultimately show ?thesis by (metis option.simps(4))
      next
        case (Some bp)
        with line False have "thread_run (4 + 6) (TraceFunc_pc engine_frames ta, s) =
          (InUI (Break_bp bp) (Writing ClearBreakData_writes Idle),
           snd (TraceFunc_enter engine_frames ta s))"
          unfolding start s1_def
          by (simp add: eval_nat_numeral TraceFunc_enter_def Let_def bp_halt_writes_def)
        moreover from line False Some have "fst (TraceFunc_enter engine_frames ta s) = Some (Break_bp bp)"
          unfolding s1_def by (simp add: TraceFunc_enter_def Let_def)
        ultimately show ?thesis by (metis option.simps(5))
      qed
    qed
  qed
qed

text \<open>
  No action writes the break data, so what holds of it at a place of the script's
  thread holds there whatever the UI thread does.
\<close>

lemma break_data_do_write:
  "break_data s = break_data s' \<Longrightarrow> break_data (do_write w s) = break_data (do_write w s')"
  by (cases w) (simp_all add: break_data_def)

lemma break_data_fold:
  "break_data s = break_data s' \<Longrightarrow> break_data (fold do_write ws s) = break_data (fold do_write ws s')"
proof (induction ws arbitrary: s s')
  case Nil
  then show ?case by simp
next
  case (Cons w ws)
  from Cons.prems have "break_data (do_write w s) = break_data (do_write w s')"
    by (rule break_data_do_write)
  then have "break_data (fold do_write ws (do_write w s)) = break_data (fold do_write ws (do_write w s'))"
    by (rule Cons.IH)
  then show ?case by simp
qed

lemma running_clear_break_data:
  "break_data s = break_data s' \<Longrightarrow> running_clear s = running_clear s'"
  by (simp add: break_data_def running_clear_def)

lemma pc_ok_break_data:
  "break_data s = break_data s' \<Longrightarrow> pc_ok p s = pc_ok p s'"
proof (induction p arbitrary: s s')
  case Idle
  then show ?case by (simp add: break_data_def running_clear_def)
next
  case (Writing ws p)
  from Writing.prems
  have "break_data (fold do_write ws s) = break_data (fold do_write ws s')"
    by (rule break_data_fold)
  then have "pc_ok p (fold do_write ws s) = pc_ok p (fold do_write ws s')"
    by (rule Writing.IH)
  then show ?case by simp
next
  case (Decide fr ta)
  then show ?case by (simp add: break_data_def running_clear_def)
next
  case (Lookup fr ta)
  then show ?case by (simp add: break_data_def running_clear_def)
next
  case (InUI c p)
  from InUI.prems have rc: "running_clear s = running_clear s'"
    by (simp add: break_data_def running_clear_def)
  from InUI.prems have "pc_ok p s = pc_ok p s'" by (rule InUI.IH)
  with rc show ?case by simp
qed

lemma break_data_halt_fields:
  "halt_fields s = halt_fields s' \<Longrightarrow> break_data s = break_data s'"
  by (simp add: halt_fields_def break_data_def)

lemma break_data_run_action: "break_data (snd (run_action a s)) = break_data s"
proof (cases a)
  case (CallAddBreakPoint bp)
  have "break_data (snd (snd (Server_AddBreakPoint bp s))) = break_data s"
    by (rule break_data_halt_fields) (rule halt_fields_Server_AddBreakPoint)
  with CallAddBreakPoint show ?thesis by simp
next
  case (CallRemoveBreakPoint i)
  have "break_data (snd (RemoveBreakPoint i s)) = break_data s"
    by (rule break_data_halt_fields) (rule halt_fields_RemoveBreakPoint)
  with CallRemoveBreakPoint show ?thesis by simp
next
  case CallGetBreakPoints
  have "break_data (snd (GetBreakPoints id s)) = break_data s"
    by (rule break_data_halt_fields) (rule halt_fields_GetBreakPoints)
  with CallGetBreakPoints show ?thesis by simp
next
  case (CallShiftActiveFrame b)
  then show ?thesis by (simp add: ShiftActiveFrame_def break_data_def)
next
  case CallStep
  then show ?thesis by (simp add: Step_def break_data_def)
next
  case (CallGetCodeLines b e)
  have "break_data (snd (GetCodeLines b e s)) = break_data s"
    by (rule break_data_halt_fields) (rule halt_fields_GetCodeLines)
  with CallGetCodeLines show ?thesis by simp
next
  case (EngineLoad p ls)
  then show ?thesis by (simp add: break_data_def)
qed

lemma pc_ok_cleared:
  "pc_ok (Writing ClearBreakData_writes Idle) s"
  "pc_ok (Writing ClearBreakData_writes (Decide engine_frames ta)) s"
  by (simp_all add: ClearBreakData_writes_def running_clear_def)

lemma pc_ok_thread_step:
  assumes "pc_ok p s"
  shows "pc_ok (fst (thread_step p s)) (snd (thread_step p s))"
proof (cases p)
  case Idle
  with assms show ?thesis by simp
next
  case (Writing ws nxt)
  with assms show ?thesis by (cases ws) auto
next
  case (Decide fr ta)
  with assms show ?thesis
    by (simp add: step_halt_writes_def ClearBreakData_writes_def running_clear_def)
next
  case (Lookup fr ta)
  define s1 where "s1 = (if unresolved_breakpoints s \<noteq> [] then ResolveBreakPoints s else s)"
  have hf: "halt_fields s1 = halt_fields s" by (simp add: s1_def)
  have "running_clear s1 = running_clear s"
    by (rule running_clear_break_data [OF break_data_halt_fields [OF hf]])
  with assms Lookup show ?thesis
    by (simp add: Let_def s1_def [symmetric] bp_halt_writes_def ClearBreakData_writes_def
        running_clear_def split: option.splits)
next
  case (InUI c nxt)
  with assms show ?thesis by simp
qed

lemma interleaved_pc_ok: "interleaved c \<Longrightarrow> pc_ok (fst c) (snd c)"
proof (induction rule: interleaved.induct)
  case il_init
  show ?case by (simp add: running_clear_def Impl_init_def)
next
  case (il_action p s a)
  have "pc_ok p (snd (run_action a s)) = pc_ok p s"
    by (rule pc_ok_break_data) (rule break_data_run_action)
  with il_action show ?case by simp
next
  case (il_start s)
  then show ?case
    by (simp add: Start_pc_def ClearBreakData_writes_def running_clear_def)
next
  case (il_event s fr ta)
  show ?case by (simp only: TraceFunc_pc_def fst_conv snd_conv pc_ok_cleared)
next
  case (il_thread p s)
  then show ?case using pc_ok_thread_step [of p s] by simp
qed

lemma pc_ok_running_clear: "pc_ok p s \<Longrightarrow> \<not> in_writes p \<Longrightarrow> running_clear s"
  by (cases p) simp_all

lemma interleaved_running_clear:
  "interleaved (p, s) \<Longrightarrow> \<not> in_writes p \<Longrightarrow> running_clear s"
  using interleaved_pc_ok [of "(p, s)"] pc_ok_running_clear by simp

text \<open>A schedule that runs leads from a state of the two threads to another.\<close>

lemma interleaved_run_move:
  assumes "interleaved c" and "run_move m c = Some c'"
  shows "interleaved c'"
proof -
  obtain p s where c: "c = (p, s)" by (cases c)
  show ?thesis
  proof (cases m)
    case Thread
    with assms c have "c' = thread_step p s" by simp
    with assms(1) c show ?thesis by (simp add: il_thread)
  next
    case (Act a)
    with assms c have "c' = (p, snd (run_action a s))" by simp
    with assms(1) c show ?thesis by (simp add: il_action)
  next
    case (Event fr ta)
    with assms c have "p = Idle" and "c' = (TraceFunc_pc fr ta, s)"
      by (simp_all split: if_splits)
    with assms(1) c show ?thesis by (simp add: il_event)
  next
    case CallStart
    with assms c have "p = Idle" and "c' = (Start_pc, s)"
      by (simp_all split: if_splits)
    with assms(1) c show ?thesis by (simp add: il_start)
  qed
qed

lemma interleaved_run_moves:
  "interleaved c \<Longrightarrow> run_moves ms c = Some c' \<Longrightarrow> interleaved c'"
proof (induction ms arbitrary: c)
  case Nil
  then show ?case by simp
next
  case (Cons m ms)
  from Cons.prems(2) obtain c1 where m: "run_move m c = Some c1" and ms: "run_moves ms c1 = Some c'"
    by (cases "run_move m c") simp_all
  from Cons.prems(1) m have "interleaved c1" by (rule interleaved_run_move)
  then show ?case using ms by (rule Cons.IH)
qed

subsection \<open>The sample session, evaluated\<close>

lemma state_started_eq:
  "state_started = Impl_init\<lparr>break_at_next_line := True\<rparr>"
  by (simp add: state_started_def Start_def Start_enter_def sample_ui_def Step_def IsStopped_def
        ClearBreakData_def Impl_init_def)

lemma state_first_halt_eq:
  "state_first_halt =
     Impl_init\<lparr>frames := sample_frames, last_break_file_path := ''a.rb'', last_break_line := 7,
               is_stopped := True\<rparr>"
  by (simp add: state_first_halt_def state_started_eq TraceFunc_enter_def sample_event_def
        ClearBreakData_def Impl_init_def Let_def)

lemma state_resumed_eq:
  "state_resumed = Impl_init\<lparr>break_at_next_line := True, active_frame_index := 2\<rparr>"
  by (simp add: state_resumed_def state_started_eq TraceFunc_def TraceFunc_enter_def
        sample_event_def sample_ui_def sample_frames_def ShiftActiveFrame_def Step_def
        IsStopped_def ClearBreakData_def Impl_init_def Let_def)

lemma state_second_halt_eq:
  "state_second_halt =
     Impl_init\<lparr>frames := [\<lparr>name = ''b.rb:1'', binding = 4\<rparr>], active_frame_index := 2,
               last_break_file_path := ''b.rb'', last_break_line := 1, is_stopped := True\<rparr>"
  by (simp add: state_second_halt_def state_resumed_eq TraceFunc_enter_def
        ClearBreakData_def Impl_init_def Let_def)

text \<open>The same session, write by write.\<close>

lemma run_moves_append:
  "run_moves (ms @ ms') c = (case run_moves ms c of None \<Rightarrow> None | Some c' \<Rightarrow> run_moves ms' c')"
  by (induction ms arbitrary: c) (simp_all split: option.splits)

lemma run_moves_started: "run_moves moves_started (Idle, Impl_init) = Some (Idle, state_started)"
  by (simp add: moves_started_def Start_pc_def ClearBreakData_writes_def state_started_eq
        Step_def IsStopped_def Impl_init_def)

lemma run_moves_frames_written:
  "run_moves moves_frames_written (Idle, Impl_init) =
     Some (Writing [W_file ''a.rb'', W_line 7, W_stopped True]
             (InUI (Break_line ''a.rb'' 7) (Writing ClearBreakData_writes Idle)),
           state_frames_written)"
  unfolding moves_frames_written_def run_moves_append run_moves_started
  by (simp add: state_frames_written_def state_started_eq TraceFunc_pc_def
        ClearBreakData_writes_def step_halt_writes_def sample_event_def Impl_init_def)

lemma run_moves_first_halt:
  "run_moves moves_first_halt (Idle, Impl_init) =
     Some (InUI (Break_line ''a.rb'' 7) (Writing ClearBreakData_writes Idle), state_first_halt)"
  unfolding moves_first_halt_def run_moves_append run_moves_frames_written
  by (simp add: state_frames_written_def state_started_eq state_first_halt_eq Impl_init_def)

lemma run_moves_flag_cleared:
  "run_moves moves_flag_cleared (Idle, Impl_init) =
     Some (Writing [W_file [], W_line 0] Idle, state_flag_cleared)"
  unfolding moves_flag_cleared_def run_moves_append run_moves_first_halt
  by (simp add: state_flag_cleared_def state_first_halt_eq ClearBreakData_writes_def
        ShiftActiveFrame_def Step_def IsStopped_def sample_frames_def Impl_init_def)

lemma run_moves_resumed:
  "run_moves moves_resumed (Idle, Impl_init) = Some (Idle, state_resumed)"
  unfolding moves_resumed_def run_moves_append run_moves_flag_cleared
  by (simp add: state_flag_cleared_def state_first_halt_eq state_resumed_eq Impl_init_def)

lemma interleaved_state_frames_written:
  "interleaved (Writing [W_file ''a.rb'', W_line 7, W_stopped True]
             (InUI (Break_line ''a.rb'' 7) (Writing ClearBreakData_writes Idle)),
           state_frames_written)"
  using il_init run_moves_frames_written by (rule interleaved_run_moves)

lemma interleaved_state_flag_cleared:
  "interleaved (Writing [W_file [], W_line 0] Idle, state_flag_cleared)"
  using il_init run_moves_flag_cleared by (rule interleaved_run_moves)

lemma interleaved_state_resumed: "interleaved (Idle, state_resumed)"
  using il_init run_moves_resumed by (rule interleaved_run_moves)

lemma run_moves_second_halt:
  "run_moves moves_second_halt (Idle, Impl_init) =
     Some (InUI (Break_line ''b.rb'' 1) (Writing ClearBreakData_writes Idle), state_second_halt)"
  unfolding moves_second_halt_def run_moves_append run_moves_resumed
  by (simp add: state_resumed_eq state_second_halt_eq TraceFunc_pc_def
        ClearBreakData_writes_def step_halt_writes_def Impl_init_def)

lemma interleaved_state_second_halt:
  "interleaved (InUI (Break_line ''b.rb'' 1) (Writing ClearBreakData_writes Idle),
                state_second_halt)"
  using il_init run_moves_second_halt by (rule interleaved_run_moves)

lemma interleaved_state_first_halt:
  "interleaved (InUI (Break_line ''a.rb'' 7) (Writing ClearBreakData_writes Idle), state_first_halt)"
  using il_init run_moves_first_halt by (rule interleaved_run_moves)

lemma reachable_state_resumed: "reachable state_resumed"
  unfolding state_resumed_def state_started_def
  by (intro reachable_TraceFunc reachable_Start reach_init)

lemma reachable_state_second_halt: "reachable state_second_halt"
  unfolding state_second_halt_def by (intro reach_trace reachable_state_resumed)

subsection \<open>Clearing the break data\<close>

lemma halt_fields_eqD:
  "halt_fields s' = halt_fields s \<Longrightarrow>
     is_stopped s' = is_stopped s \<and> break_at_next_line s' = break_at_next_line s \<and>
     frames s' = frames s \<and> active_frame_index s' = active_frame_index s \<and>
     last_break_file_path s' = last_break_file_path s \<and> last_break_line s' = last_break_line s"
  by (simp add: halt_fields_def)

lemma active_frame_index_TraceFunc_enter:
  "active_frame_index (snd (TraceFunc_enter fr ta s)) = active_frame_index s"
proof -
  have "active_frame_index (ResolveBreakPoints (ClearBreakData s)) = active_frame_index s"
    using halt_fields_eqD [OF halt_fields_ResolveBreakPoints [of "ClearBreakData s"]]
    by (simp add: ClearBreakData_def)
  then show ?thesis
    by (simp add: TraceFunc_enter_def Let_def ClearBreakData_def split: option.splits)
qed

lemma break_data_TraceFunc:
  "frames (TraceFunc ui fr ta s) = [] \<and> \<not> is_stopped (TraceFunc ui fr ta s) \<and>
   last_break_file_path (TraceFunc ui fr ta s) = [] \<and> last_break_line (TraceFunc ui fr ta s) = 0"
proof -
  have r: "halt_fields (ResolveBreakPoints (ClearBreakData s)) = halt_fields (ClearBreakData s)"
    by simp
  have "frames (ResolveBreakPoints (ClearBreakData s)) = [] \<and>
        \<not> is_stopped (ResolveBreakPoints (ClearBreakData s)) \<and>
        last_break_file_path (ResolveBreakPoints (ClearBreakData s)) = [] \<and>
        last_break_line (ResolveBreakPoints (ClearBreakData s)) = 0"
    using halt_fields_eqD [OF r] by (simp add: ClearBreakData_def)
  then show ?thesis
    by (auto simp: TraceFunc_def TraceFunc_enter_def Let_def ClearBreakData_def
             split: option.splits)
qed

text \<open>
  C3 (amended). Clearing the break data discards the frames and clears the stopped
  flag, the break file and the break line, and leaves the active-frame cursor where it
  was. The same holds of every return of the trace hook: no frames, not stopped, no
  break file, break line 0. The hook carries the cursor unchanged into the state in
  which it halts (or returns).
\<close>

theorem ClearBreakData_keeps_cursor:
  "frames (ClearBreakData s) = [] \<and> \<not> is_stopped (ClearBreakData s) \<and>
   last_break_file_path (ClearBreakData s) = [] \<and> last_break_line (ClearBreakData s) = 0 \<and>
   active_frame_index (ClearBreakData s) = active_frame_index s \<and>
   frames (TraceFunc ui engine_frames ta s) = [] \<and>
   \<not> is_stopped (TraceFunc ui engine_frames ta s) \<and>
   last_break_file_path (TraceFunc ui engine_frames ta s) = [] \<and>
   last_break_line (TraceFunc ui engine_frames ta s) = 0 \<and>
   active_frame_index (snd (TraceFunc_enter engine_frames ta s)) = active_frame_index s"
  using break_data_TraceFunc [of ui engine_frames ta s]
    active_frame_index_TraceFunc_enter [of engine_frames ta s]
  by (simp add: ClearBreakData_def)

text \<open>
  The state of the sample session after the first halt: it is a state of the server at
  either grain, it has no frames and is not stopped, and its cursor is 2.
\<close>

theorem cursor_not_reset_counterexample:
  "reachable state_resumed \<and> interleaved (Idle, state_resumed) \<and>
   frames state_resumed = [] \<and> \<not> is_stopped state_resumed \<and>
   active_frame_index state_resumed = 2"
  using reachable_state_resumed interleaved_state_resumed
  by (simp add: state_resumed_eq Impl_init_def)

subsection \<open>Stepping\<close>

text \<open>
  C5. A line event that finds the step flag set halts: the hook clears the flag, stores
  the frames the engine gives, the file and the line of the event, marks the server
  stopped and calls the UI's \<^verbatim>\<open>Break(file, line)\<close>. Nothing in this depends on the
  breakpoints, which the branch neither reads nor changes. When the call returns the
  break data is cleared.
\<close>

theorem TraceFunc_step_halts:
  "tp_event ta = id_line \<Longrightarrow> break_at_next_line s \<Longrightarrow>
     TraceFunc_enter engine_frames ta s =
       (Some (Break_line (tp_path ta) (tp_lineno ta)),
        s\<lparr>break_at_next_line := False, frames := engine_frames,
          last_break_file_path := tp_path ta, last_break_line := tp_lineno ta,
          is_stopped := True\<rparr>) \<and>
     TraceFunc ui engine_frames ta s =
       ClearBreakData
         (run_actions (ui (Break_line (tp_path ta) (tp_lineno ta)))
            (s\<lparr>break_at_next_line := False, frames := engine_frames,
               last_break_file_path := tp_path ta, last_break_line := tp_lineno ta,
               is_stopped := True\<rparr>))"
  by (simp add: TraceFunc_def TraceFunc_enter_def ClearBreakData_def Let_def)

theorem TraceFunc_step_halts_witness:
  "tp_event sample_event = id_line \<and> break_at_next_line state_started \<and>
   GetBreakPoint ''a.rb'' 7 state_started = None \<and>
   unresolved_breakpoints state_started = [] \<and>
   fst (TraceFunc_enter sample_frames sample_event state_started) = Some (Break_line ''a.rb'' 7) \<and>
   is_stopped (snd (TraceFunc_enter sample_frames sample_event state_started)) \<and>
   \<not> break_at_next_line (snd (TraceFunc_enter sample_frames sample_event state_started)) \<and>
   frames (snd (TraceFunc_enter sample_frames sample_event state_started)) = sample_frames \<and>
   last_break_line (snd (TraceFunc_enter sample_frames sample_event state_started)) = 7"
proof -
  have e: "tp_event sample_event = id_line" by (simp add: sample_event_def)
  have b: "break_at_next_line state_started" by (simp add: state_started_eq)
  have p: "tp_path sample_event = ''a.rb''" "tp_lineno sample_event = 7"
    by (simp_all add: sample_event_def)
  have g: "GetBreakPoint ''a.rb'' 7 state_started = None \<and> unresolved_breakpoints state_started = []"
    by (simp add: state_started_eq GetBreakPoint_def Impl_init_def)
  from TraceFunc_step_halts [OF e b, of sample_frames sample_ui] e b g p show ?thesis
    by simp
qed

subsection \<open>Running and stopped\<close>

lemma thread_run_step_halt_writes:
  "thread_run 2 (Writing (step_halt_writes engine_frames ta) q, s) =
     (Writing [W_file (tp_path ta), W_line (tp_lineno ta), W_stopped True] q,
      s\<lparr>break_at_next_line := False, frames := engine_frames\<rparr>)"
  by (simp add: eval_nat_numeral step_halt_writes_def)

lemma thread_run_bp_halt_writes:
  "thread_run 1 (Writing (bp_halt_writes engine_frames ta) q, s) =
     (Writing [W_file (tp_path ta), W_line (tp_lineno ta), W_stopped True] q,
      s\<lparr>frames := engine_frames\<rparr>)"
  by (simp add: bp_halt_writes_def)

lemma thread_run_ClearBreakData_writes_2:
  "thread_run 2 (Writing ClearBreakData_writes q, s) =
     (Writing [W_file [], W_line 0] q, s\<lparr>frames := [], is_stopped := False\<rparr>)"
  by (simp add: eval_nat_numeral ClearBreakData_writes_def)







subsection \<open>Moving the cursor\<close>

text \<open>
  C9 (amended). A call of \<^verbatim>\<open>ShiftActiveFrame\<close> changes nothing but the cursor, and moves
  it by one position or not at all. It changes nothing while the server runs, nothing
  at index 0 towards the newer frames, and nothing towards the older frames at the last
  frame or beyond it. In every other case the cursor moves by one in the direction
  asked for. So a call that moves the cursor towards the older frames ends within the
  frame sequence, and a cursor that points into the frame sequence still does so after
  the call. While the server is stopped, a cursor beyond the last frame stays where it
  is on a call towards the older frames, and moves down by one on a call towards the
  newer ones.
\<close>

theorem ShiftActiveFrame_by_one:
  "ShiftActiveFrame shift_up s =
     s\<lparr>active_frame_index := active_frame_index (ShiftActiveFrame shift_up s)\<rparr> \<and>
   (active_frame_index (ShiftActiveFrame shift_up s) = active_frame_index s \<or>
    active_frame_index (ShiftActiveFrame shift_up s) = active_frame_index s + 1 \<and> shift_up \<or>
    active_frame_index (ShiftActiveFrame shift_up s) + 1 = active_frame_index s \<and> \<not> shift_up) \<and>
   (\<not> IsStopped s \<longrightarrow> ShiftActiveFrame shift_up s = s) \<and>
   (active_frame_index s = 0 \<longrightarrow> ShiftActiveFrame False s = s) \<and>
   (active_frame_index s + 1 = length (frames s) \<longrightarrow> ShiftActiveFrame True s = s) \<and>
   (length (frames s) \<le> active_frame_index s + 1 \<longrightarrow> ShiftActiveFrame True s = s) \<and>
   (IsStopped s \<and> active_frame_index s + 1 < length (frames s) \<longrightarrow>
      active_frame_index (ShiftActiveFrame True s) = active_frame_index s + 1) \<and>
   (IsStopped s \<and> 0 < active_frame_index s \<longrightarrow>
      active_frame_index (ShiftActiveFrame False s) + 1 = active_frame_index s) \<and>
   (ShiftActiveFrame True s \<noteq> s \<longrightarrow>
      active_frame_index (ShiftActiveFrame True s) < length (frames s)) \<and>
   (active_frame_index s < length (frames s) \<longrightarrow>
      active_frame_index (ShiftActiveFrame shift_up s) < length (frames s))"
  by (auto simp: ShiftActiveFrame_def)

theorem ShiftActiveFrame_by_one_witness:
  "IsStopped state_first_halt \<and> active_frame_index state_first_halt = 0 \<and>
   length (frames state_first_halt) = 3 \<and>
   ShiftActiveFrame False state_first_halt = state_first_halt \<and>
   active_frame_index (ShiftActiveFrame True state_first_halt) = 1 \<and>
   active_frame_index (ShiftActiveFrame True (ShiftActiveFrame True state_first_halt)) = 2 \<and>
   ShiftActiveFrame True (ShiftActiveFrame True (ShiftActiveFrame True state_first_halt)) =
     ShiftActiveFrame True (ShiftActiveFrame True state_first_halt) \<and>
   \<not> IsStopped state_resumed \<and> ShiftActiveFrame True state_resumed = state_resumed"
  using ShiftActiveFrame_by_one [of True state_first_halt]
    ShiftActiveFrame_by_one [of False state_resumed]
  by (simp add: state_first_halt_eq state_resumed_eq ShiftActiveFrame_def IsStopped_def
        sample_frames_def Impl_init_def)

text \<open>
  The second halt of the sample session: one frame, and the cursor at 2, where the
  operator left it at the first halt. A call towards the older frames leaves it at 2,
  a call towards the newer ones moves it to 1: in both cases beyond the only frame.
\<close>

theorem ShiftActiveFrame_range_counterexample:
  "reachable state_second_halt \<and>
   interleaved (InUI (Break_line ''b.rb'' 1) (Writing ClearBreakData_writes Idle),
                state_second_halt) \<and>
   IsStopped state_second_halt \<and>
   length (frames state_second_halt) = 1 \<and> active_frame_index state_second_halt = 2 \<and>
   active_frame_index (ShiftActiveFrame False state_second_halt) = 1 \<and>
   active_frame_index (ShiftActiveFrame True state_second_halt) = 2"
  using reachable_state_second_halt interleaved_state_second_halt
  by (simp add: state_second_halt_eq ShiftActiveFrame_def IsStopped_def Impl_init_def)

subsection \<open>The source window\<close>

lemma map_Suc_upt_shift:
  "0 < a \<Longrightarrow> map (\<lambda>i. (i + 1, xs ! i)) [a - 1 ..< b] = map (\<lambda>n. (n, xs ! (n - 1))) [a ..< b + 1]"
proof -
  assume a: "0 < a"
  have "[a ..< b + 1] = map Suc [a - 1 ..< b]"
    using a by (simp add: map_Suc_upt)
  then show ?thesis by (simp add: comp_def)
qed


lemma ReadScriptLinesHash_state_line2:
  "script_lines (ReadScriptLinesHash state_line2) = [(''a.rb'', twenty_lines)]"
  by (simp add: ReadScriptLinesHash_def state_line2_def Impl_init_def EachKeyValFunc_def
        std_map_put_def)


subsection \<open>Removing a breakpoint\<close>

lemma store_entries_Cons:
  "store_entries ((l, m) # rest) = map (\<lambda>(f, bp). (l, f, bp)) m @ store_entries rest"
  by (simp add: store_entries_def)

lemma store_entries_Nil [simp]: "store_entries [] = []"
  by (simp add: store_entries_def)

lemma erase_index_inner_None:
  "erase_index_inner i m = None \<longleftrightarrow> (\<forall>x \<in> set m. index (snd x) \<noteq> i)"
  by (induction i m rule: erase_index_inner.induct) auto

lemma erase_index_inner_Some:
  "erase_index_inner i m = Some m' \<Longrightarrow>
     \<exists>pre x post. m = pre @ x # post \<and> index (snd x) = i \<and>
       (\<forall>y \<in> set pre. index (snd y) \<noteq> i) \<and> m' = pre @ post"
proof (induction i m arbitrary: m' rule: erase_index_inner.induct)
  case (1 i)
  then show ?case by simp
next
  case (2 i f bp m)
  show ?case
  proof (cases "index bp = i")
    case True
    with 2 have "m' = m" by simp
    with True have "(f, bp) # m = [] @ (f, bp) # m \<and> index (snd (f, bp)) = i \<and>
        (\<forall>y \<in> set []. index (snd y) \<noteq> i) \<and> m' = [] @ m" by simp
    then show ?thesis by blast
  next
    case False
    with 2 obtain m'' where m'': "erase_index_inner i m = Some m''" "m' = (f, bp) # m''"
      by auto
    from 2(1) [OF False m''(1)] obtain pre x post where
      r: "m = pre @ x # post" "index (snd x) = i" "\<forall>y \<in> set pre. index (snd y) \<noteq> i"
         "m'' = pre @ post" by blast
    with False m'' have "(f, bp) # m = ((f, bp) # pre) @ x # post \<and> index (snd x) = i \<and>
        (\<forall>y \<in> set ((f, bp) # pre). index (snd y) \<noteq> i) \<and> m' = ((f, bp) # pre) @ post"
      by simp
    then show ?thesis by blast
  qed
qed

lemma erase_index_resolved_None:
  "erase_index_resolved i bs = None \<longleftrightarrow> (\<forall>e \<in> set (store_entries bs). index (snd (snd e)) \<noteq> i)"
proof (induction i bs rule: erase_index_resolved.induct)
  case (1 i)
  then show ?case by simp
next
  case (2 i l m rest)
  show ?case
  proof (cases "erase_index_inner i m")
    case None
    then have step: "erase_index_resolved i ((l, m) # rest) =
        map_option ((#) (l, m)) (erase_index_resolved i rest)" by simp
    from None have "\<forall>x \<in> set m. index (snd x) \<noteq> i"
      by (simp add: erase_index_inner_None)
    then have "\<forall>e \<in> set (map (\<lambda>(f, bp). (l, f, bp)) m). index (snd (snd e)) \<noteq> i"
      by auto
    with 2(1) [OF None] show ?thesis
      unfolding step store_entries_Cons by auto
  next
    case (Some m')
    then obtain x where "x \<in> set m" "index (snd x) = i"
      using erase_index_inner_None [of i m] by auto
    then have "\<exists>e \<in> set (store_entries ((l, m) # rest)). index (snd (snd e)) = i"
      by (force simp: store_entries_Cons)
    with Some show ?thesis by auto
  qed
qed

lemma erase_index_resolved_Some:
  "erase_index_resolved i bs = Some bs' \<Longrightarrow>
     \<exists>pre e post. store_entries bs = pre @ e # post \<and> index (snd (snd e)) = i \<and>
       (\<forall>y \<in> set pre. index (snd (snd y)) \<noteq> i) \<and> store_entries bs' = pre @ post"
proof (induction i bs arbitrary: bs' rule: erase_index_resolved.induct)
  case (1 i)
  then show ?case by simp
next
  case (2 i l m rest)
  let ?k = "\<lambda>(f, bp). (l, f, bp)"
  show ?case
  proof (cases "erase_index_inner i m")
    case (Some m')
    from erase_index_inner_Some [OF Some] obtain pre x post where
      r: "m = pre @ x # post" "index (snd x) = i" "\<forall>y \<in> set pre. index (snd y) \<noteq> i"
         "m' = pre @ post" by blast
    from 2(2) Some have bs': "bs' = (if m' = [] then rest else (l, m') # rest)" by simp
    have e': "store_entries bs' = map ?k m' @ store_entries rest"
      using bs' by (simp add: store_entries_Cons)
    have "store_entries ((l, m) # rest) = map ?k pre @ ?k x # (map ?k post @ store_entries rest) \<and>
          index (snd (snd (?k x))) = i \<and>
          (\<forall>y \<in> set (map ?k pre). index (snd (snd y)) \<noteq> i) \<and>
          store_entries bs' = map ?k pre @ (map ?k post @ store_entries rest)"
      using r e' by (auto simp: store_entries_Cons split: prod.splits)
    then show ?thesis by blast
  next
    case None
    with 2(2) obtain r' where r': "erase_index_resolved i rest = Some r'" "bs' = (l, m) # r'"
      by auto
    from 2(1) [OF None r'(1)] obtain pre e post where
      r: "store_entries rest = pre @ e # post" "index (snd (snd e)) = i"
         "\<forall>y \<in> set pre. index (snd (snd y)) \<noteq> i" "store_entries r' = pre @ post" by blast
    from None have n: "\<forall>y \<in> set (map ?k m). index (snd (snd y)) \<noteq> i"
      by (auto simp: erase_index_inner_None)
    have "store_entries ((l, m) # rest) = (map ?k m @ pre) @ e # post \<and>
          index (snd (snd e)) = i \<and>
          (\<forall>y \<in> set (map ?k m @ pre). index (snd (snd y)) \<noteq> i) \<and>
          store_entries bs' = (map ?k m @ pre) @ post"
      using r r' n by (auto simp: store_entries_Cons)
    then show ?thesis by blast
  qed
qed

lemma erase_index_unresolved_None:
  "erase_index_unresolved i u = None \<longleftrightarrow> (\<forall>bp \<in> set u. index bp \<noteq> i)"
  by (induction i u rule: erase_index_unresolved.induct) auto

lemma erase_index_unresolved_Some:
  "erase_index_unresolved i u = Some u' \<Longrightarrow>
     \<exists>pre bp post. u = pre @ bp # post \<and> index bp = i \<and>
       (\<forall>y \<in> set pre. index y \<noteq> i) \<and> u' = pre @ post"
proof (induction i u arbitrary: u' rule: erase_index_unresolved.induct)
  case (1 i)
  then show ?case by simp
next
  case (2 i bp rest)
  show ?case
  proof (cases "i = index bp")
    case True
    with 2 have "u' = rest" by simp
    with True have "bp # rest = [] @ bp # rest \<and> index bp = i \<and>
        (\<forall>y \<in> set []. index y \<noteq> i) \<and> u' = [] @ rest" by simp
    then show ?thesis by blast
  next
    case False
    with 2 obtain r' where r': "erase_index_unresolved i rest = Some r'" "u' = bp # r'"
      by auto
    from 2(1) [OF False r'(1)] obtain pre x post where
      r: "rest = pre @ x # post" "index x = i" "\<forall>y \<in> set pre. index y \<noteq> i" "r' = pre @ post"
      by blast
    with False r' have "bp # rest = (bp # pre) @ x # post \<and> index x = i \<and>
        (\<forall>y \<in> set (bp # pre). index y \<noteq> i) \<and> u' = (bp # pre) @ post"
      by auto
    then show ?thesis by blast
  qed
qed

text \<open>
  C6. When no resolved and no unresolved breakpoint has the index, \<^verbatim>\<open>RemoveBreakPoint\<close>
  returns false and the state is as before. When a resolved breakpoint has it, the
  call returns true, the first resolved entry with the index (in the order line, then
  file) is gone, and nothing else has changed: the unresolved list is untouched even
  if it also holds the index. When only unresolved breakpoints have it, the call
  returns true and the first of them is gone, nothing else changed.
\<close>

theorem RemoveBreakPoint_first_match:
  "((\<forall>e \<in> set (resolved_entries s). index (snd (snd e)) \<noteq> i) \<and>
    (\<forall>bp \<in> set (unresolved_breakpoints s). index bp \<noteq> i) \<longrightarrow>
      RemoveBreakPoint i s = (False, s)) \<and>
   ((\<exists>e \<in> set (resolved_entries s). index (snd (snd e)) = i) \<longrightarrow>
      fst (RemoveBreakPoint i s) \<and>
      (\<exists>pre e post.
         resolved_entries s = pre @ e # post \<and> index (snd (snd e)) = i \<and>
         (\<forall>y \<in> set pre. index (snd (snd y)) \<noteq> i) \<and>
         resolved_entries (snd (RemoveBreakPoint i s)) = pre @ post) \<and>
      snd (RemoveBreakPoint i s) = s\<lparr>breakpoints := breakpoints (snd (RemoveBreakPoint i s))\<rparr>) \<and>
   ((\<forall>e \<in> set (resolved_entries s). index (snd (snd e)) \<noteq> i) \<and>
    (\<exists>bp \<in> set (unresolved_breakpoints s). index bp = i) \<longrightarrow>
      fst (RemoveBreakPoint i s) \<and>
      (\<exists>pre bp post.
         unresolved_breakpoints s = pre @ bp # post \<and> index bp = i \<and>
         (\<forall>y \<in> set pre. index y \<noteq> i) \<and>
         snd (RemoveBreakPoint i s) = s\<lparr>unresolved_breakpoints := pre @ post\<rparr>))"
proof (intro conjI impI)
  assume "(\<forall>e \<in> set (resolved_entries s). index (snd (snd e)) \<noteq> i) \<and>
          (\<forall>bp \<in> set (unresolved_breakpoints s). index bp \<noteq> i)"
  then have "erase_index_resolved i (breakpoints s) = None"
    "erase_index_unresolved i (unresolved_breakpoints s) = None"
    by (simp_all add: erase_index_resolved_None erase_index_unresolved_None resolved_entries_def)
  then show "RemoveBreakPoint i s = (False, s)" by (simp add: RemoveBreakPoint_def)
next
  assume a: "\<exists>e \<in> set (resolved_entries s). index (snd (snd e)) = i"
  then obtain bs' where bs': "erase_index_resolved i (breakpoints s) = Some bs'"
    using erase_index_resolved_None [of i "breakpoints s"]
    by (auto simp: resolved_entries_def)
  then have eq: "RemoveBreakPoint i s = (True, s\<lparr>breakpoints := bs'\<rparr>)"
    by (simp add: RemoveBreakPoint_def)
  from eq show "fst (RemoveBreakPoint i s)" by simp
  from eq show "snd (RemoveBreakPoint i s) = s\<lparr>breakpoints := breakpoints (snd (RemoveBreakPoint i s))\<rparr>"
    by simp
  from erase_index_resolved_Some [OF bs'] eq
  show "\<exists>pre e post.
         resolved_entries s = pre @ e # post \<and> index (snd (snd e)) = i \<and>
         (\<forall>y \<in> set pre. index (snd (snd y)) \<noteq> i) \<and>
         resolved_entries (snd (RemoveBreakPoint i s)) = pre @ post"
    by (simp add: resolved_entries_def)
next
  assume a: "(\<forall>e \<in> set (resolved_entries s). index (snd (snd e)) \<noteq> i) \<and>
             (\<exists>bp \<in> set (unresolved_breakpoints s). index bp = i)"
  then have n: "erase_index_resolved i (breakpoints s) = None"
    by (simp add: erase_index_resolved_None resolved_entries_def)
  from a obtain u' where u': "erase_index_unresolved i (unresolved_breakpoints s) = Some u'"
    using erase_index_unresolved_None [of i "unresolved_breakpoints s"] by auto
  with n have eq: "RemoveBreakPoint i s = (True, s\<lparr>unresolved_breakpoints := u'\<rparr>)"
    by (simp add: RemoveBreakPoint_def)
  from eq show "fst (RemoveBreakPoint i s)" by simp
  from erase_index_unresolved_Some [OF u'] eq
  show "\<exists>pre bp post.
         unresolved_breakpoints s = pre @ bp # post \<and> index bp = i \<and>
         (\<forall>y \<in> set pre. index y \<noteq> i) \<and>
         snd (RemoveBreakPoint i s) = s\<lparr>unresolved_breakpoints := pre @ post\<rparr>"
    by auto
qed


theorem RemoveBreakPoint_first_match_witness:
  "RemoveBreakPoint 9 state_store = (False, state_store) \<and>
   RemoveBreakPoint 2 state_store =
     (True, state_store\<lparr>breakpoints :=
        [(1, [(''a.rb'', \<lparr>index = 1, file' = ''a.rb'', line = 1\<rparr>)]),
         (3, [(''b.rb'', \<lparr>index = 3, file' = ''b.rb'', line = 3\<rparr>)])]\<rparr>) \<and>
   RemoveBreakPoint 1 state_store =
     (True, state_store\<lparr>breakpoints :=
        [(3, [(''a.rb'', \<lparr>index = 2, file' = ''a.rb'', line = 3\<rparr>),
              (''b.rb'', \<lparr>index = 3, file' = ''b.rb'', line = 3\<rparr>)])]\<rparr>) \<and>
   RemoveBreakPoint 4 state_store =
     (True, state_store\<lparr>unresolved_breakpoints :=
        [\<lparr>index = 2, file' = ''y.rb'', line = 6\<rparr>]\<rparr>)"
  using RemoveBreakPoint_first_match [of state_store 9]
    RemoveBreakPoint_first_match [of state_store 2]
    RemoveBreakPoint_first_match [of state_store 4]
  by (simp add: RemoveBreakPoint_def state_store_def Impl_init_def)

subsection \<open>The maps of the store\<close>

lemma map_of_insort_key:
  "map_of m k = None \<Longrightarrow> map_of (insort_key fst (k, v) m) = (map_of m)(k \<mapsto> v)"
proof (induction m)
  case Nil
  then show ?case by simp
next
  case (Cons e m)
  then have ne: "fst e \<noteq> k" by (cases e) (auto split: if_splits)
  with Cons have "map_of m k = None" by (cases e) (auto split: if_splits)
  with Cons ne show ?case by (cases e) (auto simp: fun_upd_twist)
qed

lemma map_of_replace:
  "distinct (map fst m) \<Longrightarrow> map_of m k = Some w \<Longrightarrow>
     map_of (map (\<lambda>e. if fst e = k then (k, v) else e) m) = (map_of m)(k \<mapsto> v)"
proof (induction m)
  case Nil
  then show ?case by simp
next
  case (Cons e m)
  show ?case
  proof (cases "fst e = k")
    case True
    with Cons(2) have "k \<notin> fst ` set m" by auto
    then have "map (\<lambda>e. if fst e = k then (k, v) else e) m = m"
      by (induction m) auto
    with True show ?thesis by (cases e) auto
  next
    case False
    with Cons show ?thesis by (cases e) (auto simp: fun_upd_twist)
  qed
qed

lemma map_of_std_map_put:
  "distinct (map fst m) \<Longrightarrow> map_of (std_map_put k v m) = (map_of m)(k \<mapsto> v)"
  by (auto simp: std_map_put_def map_of_insort_key map_of_replace split: option.splits)

lemma keys_replace:
  "map (fst \<circ> (\<lambda>e. if fst e = k then (k, v) else e)) m = map fst m"
  by (induction m) auto

lemma distinct_std_map_put:
  "distinct (map fst m) \<Longrightarrow> distinct (map fst (std_map_put k v m))"
  by (auto simp: std_map_put_def keys_replace distinct_insort_key map_of_eq_None_iff
           split: option.splits)

lemma set_std_map_put:
  "set (std_map_put k v m) \<subseteq> insert (k, v) (set m)"
  by (auto simp: std_map_put_def set_insort_key split: option.splits if_splits)

lemma distinct_std_map_insert:
  "distinct (map fst m) \<Longrightarrow> distinct (map fst (std_map_insert k v m))"
  by (auto simp: std_map_insert_def distinct_insort_key map_of_eq_None_iff split: option.splits)

lemma set_std_map_insert:
  "set (std_map_insert k v m) \<subseteq> insert (k, v) (set m)"
  by (auto simp: std_map_insert_def set_insort_key split: option.splits)

lemma map_of_std_map_insert:
  "map_of (std_map_insert k v m) =
     (case map_of m k of Some w \<Rightarrow> map_of m | None \<Rightarrow> (map_of m)(k \<mapsto> v))"
  by (auto simp: std_map_insert_def map_of_insort_key split: option.splits)

lemma std_map_put_same:
  "distinct (map fst m) \<Longrightarrow> map_of m k = Some v \<Longrightarrow> std_map_put k v m = m"
proof -
  assume d: "distinct (map fst m)" and f: "map_of m k = Some v"
  have "map (\<lambda>e. if fst e = k then (k, v) else e) m = m"
    using d f
  proof (induction m)
    case Nil
    then show ?case by simp
  next
    case (Cons e m)
    show ?case
    proof (cases "fst e = k")
      case True
      with Cons(2) have "k \<notin> fst ` set m" by auto
      then have "map (\<lambda>e. if fst e = k then (k, v) else e) m = m"
        by (induction m) auto
      with True Cons(3) show ?thesis by (cases e) auto
    next
      case False
      with Cons show ?thesis by (cases e) auto
    qed
  qed
  with f show ?thesis by (simp add: std_map_put_def)
qed

text \<open>The inner map that \<^verbatim>\<open>AddBreakPoint\<close> writes back.\<close>

lemma store_ok_inner:
  "store_ok bs \<Longrightarrow>
     distinct (map fst (std_map_subscript l [] bs)) \<and>
     (\<forall>x \<in> set (std_map_subscript l [] bs). line (snd x) = l \<and> file' (snd x) = fst x)"
proof -
  assume ok: "store_ok bs"
  show ?thesis
  proof (cases "map_of bs l")
    case None
    then show ?thesis by (simp add: std_map_subscript_def)
  next
    case (Some m)
    then have "(l, m) \<in> set bs" by (rule map_of_SomeD)
    with ok Some show ?thesis by (force simp: store_ok_def std_map_subscript_def)
  qed
qed

lemma store_ok_put:
  assumes ok: "store_ok bs"
    and d: "distinct (map fst m)"
    and k: "\<forall>x \<in> set m. line (snd x) = l \<and> file' (snd x) = fst x"
  shows "store_ok (std_map_put l m bs)"
proof -
  have "distinct (map fst (std_map_put l m bs))"
    using ok by (simp add: store_ok_def distinct_std_map_put)
  moreover have "\<forall>e \<in> set (std_map_put l m bs).
        distinct (map fst (snd e)) \<and>
        (\<forall>x \<in> set (snd e). line (snd x) = fst e \<and> file' (snd x) = fst x)"
  proof
    fix e assume "e \<in> set (std_map_put l m bs)"
    then have "e = (l, m) \<or> e \<in> set bs" using set_std_map_put by fastforce
    then show "distinct (map fst (snd e)) \<and>
        (\<forall>x \<in> set (snd e). line (snd x) = fst e \<and> file' (snd x) = fst x)"
      using ok d k by (fastforce simp: store_ok_def)
  qed
  ultimately show ?thesis by (simp add: store_ok_def)
qed

lemma Impl_AddBreakPoint_fst:
  "fst (Impl_AddBreakPoint bp r s) =
     (if index bp = 0 then bp\<lparr>index := (last_breakpoint_index s + 1) mod 2 ^ 64\<rparr> else bp)"
  by (simp add: Impl_AddBreakPoint_def Let_def)

lemma Impl_AddBreakPoint_breakpoints:
  "breakpoints (snd (Impl_AddBreakPoint bp r s)) =
     (if r then
        std_map_put (line bp)
          (std_map_insert (file' bp) (fst (Impl_AddBreakPoint bp r s))
             (std_map_subscript (line bp) [] (breakpoints s)))
          (breakpoints s)
      else breakpoints s)"
  by (simp add: Impl_AddBreakPoint_def Let_def)

lemma store_inv_Impl_AddBreakPoint:
  "store_inv s \<Longrightarrow> store_inv (snd (Impl_AddBreakPoint bp r s))"
proof (cases r)
  case False
  assume "store_inv s"
  with False show ?thesis by (simp add: store_inv_def Impl_AddBreakPoint_breakpoints)
next
  case True
  assume inv: "store_inv s"
  let ?bp = "fst (Impl_AddBreakPoint bp r s)"
  let ?m = "std_map_subscript (line bp) [] (breakpoints s)"
  have fl: "line ?bp = line bp" "file' ?bp = file' bp"
    by (simp_all add: Impl_AddBreakPoint_fst)
  from inv have m: "distinct (map fst ?m)"
    "\<forall>x \<in> set ?m. line (snd x) = line bp \<and> file' (snd x) = fst x"
    using store_ok_inner [of "breakpoints s" "line bp"] by (simp_all add: store_inv_def)
  have d: "distinct (map fst (std_map_insert (file' bp) ?bp ?m))"
    using m(1) by (rule distinct_std_map_insert)
  have k: "\<forall>x \<in> set (std_map_insert (file' bp) ?bp ?m). line (snd x) = line bp \<and> file' (snd x) = fst x"
  proof
    fix x assume "x \<in> set (std_map_insert (file' bp) ?bp ?m)"
    then have "x = (file' bp, ?bp) \<or> x \<in> set ?m" using set_std_map_insert by fastforce
    with m(2) fl show "line (snd x) = line bp \<and> file' (snd x) = fst x" by auto
  qed
  from inv have "store_ok (breakpoints s)" by (simp add: store_inv_def)
  from store_ok_put [OF this d k] True show ?thesis
    by (simp add: store_inv_def Impl_AddBreakPoint_breakpoints)
qed

lemma GetBreakPoint_Impl_AddBreakPoint:
  assumes inv: "store_inv s"
  shows "GetBreakPoint f l (snd (Impl_AddBreakPoint bp True s)) =
     (if f = file' bp \<and> l = line bp \<and> GetBreakPoint f l s = None
      then Some (fst (Impl_AddBreakPoint bp True s))
      else GetBreakPoint f l s)"
proof -
  let ?bp = "fst (Impl_AddBreakPoint bp True s)"
  let ?m = "std_map_subscript (line bp) [] (breakpoints s)"
  from inv have d: "distinct (map fst (breakpoints s))" by (simp add: store_inv_def store_ok_def)
  have "map_of (breakpoints (snd (Impl_AddBreakPoint bp True s))) =
        (map_of (breakpoints s))(line bp \<mapsto> std_map_insert (file' bp) ?bp ?m)"
    using d by (simp add: Impl_AddBreakPoint_breakpoints map_of_std_map_put)
  then show ?thesis
    by (auto simp: GetBreakPoint_def map_of_std_map_insert std_map_subscript_def
             split: option.splits)
qed

lemma breakpoints_Impl_AddBreakPoint_occupied:
  assumes inv: "store_inv s" and occ: "GetBreakPoint (file' bp) (line bp) s = Some old"
  shows "breakpoints (snd (Impl_AddBreakPoint bp True s)) = breakpoints s"
proof -
  from occ obtain m where m: "map_of (breakpoints s) (line bp) = Some m" "map_of m (file' bp) = Some old"
    by (auto simp: GetBreakPoint_def split: option.splits)
  then have "std_map_insert (file' bp) (fst (Impl_AddBreakPoint bp True s))
               (std_map_subscript (line bp) [] (breakpoints s)) = m"
    by (simp add: std_map_insert_def std_map_subscript_def)
  moreover from inv have "distinct (map fst (breakpoints s))"
    by (simp add: store_inv_def store_ok_def)
  ultimately show ?thesis
    using m(1) by (simp add: Impl_AddBreakPoint_breakpoints std_map_put_same)
qed

subsection \<open>The store invariant holds in every state\<close>

lemma erase_index_inner_sub:
  "erase_index_inner i m = Some m' \<Longrightarrow> set m' \<subseteq> set m \<and> (distinct (map fst m) \<longrightarrow> distinct (map fst m'))"
  by (drule erase_index_inner_Some) auto

lemma store_ok_Cons:
  "store_ok ((l, m) # rest) \<longleftrightarrow>
     l \<notin> fst ` set rest \<and> distinct (map fst m) \<and>
     (\<forall>x \<in> set m. line (snd x) = l \<and> file' (snd x) = fst x) \<and> store_ok rest"
  by (auto simp: store_ok_def)

lemma erase_index_resolved_keys:
  "erase_index_resolved i bs = Some bs' \<Longrightarrow> fst ` set bs' \<subseteq> fst ` set bs"
proof (induction i bs arbitrary: bs' rule: erase_index_resolved.induct)
  case (1 i)
  then show ?case by simp
next
  case (2 i l m rest)
  show ?case
  proof (cases "erase_index_inner i m")
    case None
    with 2(2) obtain r' where r': "erase_index_resolved i rest = Some r'" "bs' = (l, m) # r'"
      by auto
    from 2(1) [OF None r'(1)] r'(2) show ?thesis by auto
  next
    case (Some m')
    with 2(2) show ?thesis by (auto split: if_splits)
  qed
qed

lemma store_ok_erase_index_resolved:
  "store_ok bs \<Longrightarrow> erase_index_resolved i bs = Some bs' \<Longrightarrow> store_ok bs'"
proof (induction i bs arbitrary: bs' rule: erase_index_resolved.induct)
  case (1 i)
  then show ?case by simp
next
  case (2 i l m rest)
  from 2(2) have ok: "l \<notin> fst ` set rest" "distinct (map fst m)"
    "\<forall>x \<in> set m. line (snd x) = l \<and> file' (snd x) = fst x" "store_ok rest"
    by (simp_all add: store_ok_Cons)
  show ?case
  proof (cases "erase_index_inner i m")
    case None
    with 2(3) obtain r' where r': "erase_index_resolved i rest = Some r'" "bs' = (l, m) # r'"
      by auto
    from 2(1) [OF None ok(4) r'(1)] have "store_ok r'" .
    moreover from erase_index_resolved_keys [OF r'(1)] ok(1) have "l \<notin> fst ` set r'" by blast
    ultimately show ?thesis using ok r'(2) by (simp add: store_ok_Cons)
  next
    case (Some m')
    from erase_index_inner_sub [OF Some] ok have m': "distinct (map fst m')"
      "\<forall>x \<in> set m'. line (snd x) = l \<and> file' (snd x) = fst x" by auto
    from 2(3) Some have "bs' = (if m' = [] then rest else (l, m') # rest)" by simp
    with ok m' show ?thesis by (simp add: store_ok_Cons)
  qed
qed

lemma store_inv_RemoveBreakPoint:
  "store_inv s \<Longrightarrow> store_inv (snd (RemoveBreakPoint i s))"
  by (auto simp: RemoveBreakPoint_def store_inv_def split: option.splits
           intro: store_ok_erase_index_resolved)

lemma store_inv_ResolveBreakPoints_loop:
  "store_inv s \<Longrightarrow> store_inv (ResolveBreakPoints_loop kept u s)"
proof (induction kept u s rule: ResolveBreakPoints_loop.induct)
  case (1 kept s)
  then show ?case by (simp add: store_inv_def)
next
  case (2 kept bp rest s)
  then show ?case by (simp add: store_inv_Impl_AddBreakPoint)
qed

lemma store_inv_ReadScriptLinesHash [simp]:
  "store_inv (ReadScriptLinesHash s) = store_inv s"
  by (simp add: store_inv_def ReadScriptLinesHash_def)

lemma store_inv_ResolveBreakPoints:
  "store_inv s \<Longrightarrow> store_inv (ResolveBreakPoints s)"
  by (simp add: ResolveBreakPoints_def Let_def store_inv_ResolveBreakPoints_loop)

lemma store_inv_Server_AddBreakPoint:
  "store_inv s \<Longrightarrow> store_inv (snd (snd (Server_AddBreakPoint bp s)))"
  by (simp add: Server_AddBreakPoint_def Let_def store_inv_Impl_AddBreakPoint)

lemma store_inv_run_action:
  "store_inv s \<Longrightarrow> store_inv (snd (run_action a s))"
proof (cases a)
  case (CallAddBreakPoint bp)
  assume "store_inv s"
  with CallAddBreakPoint show ?thesis by (simp add: store_inv_Server_AddBreakPoint)
next
  case (CallRemoveBreakPoint i)
  assume "store_inv s"
  with CallRemoveBreakPoint show ?thesis by (simp add: store_inv_RemoveBreakPoint)
next
  case CallGetBreakPoints
  assume "store_inv s"
  with CallGetBreakPoints show ?thesis
    by (simp add: GetBreakPoints_def Let_def store_inv_ResolveBreakPoints)
next
  case (CallShiftActiveFrame up)
  assume "store_inv s"
  with CallShiftActiveFrame show ?thesis by (simp add: store_inv_def ShiftActiveFrame_def)
next
  case CallStep
  assume "store_inv s"
  with CallStep show ?thesis by (simp add: store_inv_def Step_def)
next
  case (CallGetCodeLines b e)
  assume "store_inv s"
  then have "store_inv (ReadScriptLinesHash s)" by simp
  with \<open>store_inv s\<close> CallGetCodeLines show ?thesis
    by (simp add: GetCodeLines_def Let_def split: option.splits)
next
  case (EngineLoad p ls)
  assume "store_inv s"
  with EngineLoad show ?thesis by (simp add: store_inv_def)
qed

lemma store_inv_run_actions:
  "store_inv s \<Longrightarrow> store_inv (run_actions as s)"
  by (induction as arbitrary: s) (auto intro: store_inv_run_action)

lemma breakpoints_TraceFunc_enter:
  "breakpoints (snd (TraceFunc_enter fr ta s)) = breakpoints s \<or>
   breakpoints (snd (TraceFunc_enter fr ta s)) = breakpoints (ResolveBreakPoints (ClearBreakData s))"
  by (simp add: TraceFunc_enter_def Let_def ClearBreakData_def split: option.splits)

lemma store_inv_TraceFunc_enter:
  "store_inv s \<Longrightarrow> store_inv (snd (TraceFunc_enter fr ta s))"
proof -
  assume inv: "store_inv s"
  then have "store_inv (ClearBreakData s)" by (simp add: store_inv_def ClearBreakData_def)
  then have "store_inv (ResolveBreakPoints (ClearBreakData s))"
    by (rule store_inv_ResolveBreakPoints)
  with inv breakpoints_TraceFunc_enter [of fr ta s] show ?thesis
    unfolding store_inv_def by auto
qed

lemma reachable_store_inv: "reachable s \<Longrightarrow> store_inv s"
proof (induction rule: reachable.induct)
  case reach_init
  then show ?case by (simp add: store_inv_def store_ok_def Impl_init_def)
next
  case (reach_action s a)
  then show ?case by (simp add: store_inv_run_action)
next
  case (reach_start s ui)
  have "store_inv (s\<lparr>script_lines_hash := []\<rparr>)"
    using reach_start by (simp add: store_inv_def)
  then have "store_inv (run_actions (ui Initialize) (s\<lparr>script_lines_hash := []\<rparr>))"
    by (rule store_inv_run_actions)
  then show ?case by (simp add: Start_enter_def store_inv_def)
next
  case (reach_trace s engine_frames ta)
  then show ?case by (simp add: store_inv_TraceFunc_enter)
next
  case (reach_resume s)
  then show ?case by (simp add: store_inv_def ClearBreakData_def)
qed

text \<open>No two resolved breakpoints under one key, and each under its own file and line.\<close>

lemma store_entries_keys:
  "e \<in> set (store_entries bs) \<Longrightarrow> fst e \<in> fst ` set bs"
  by (induction bs) (auto simp: store_entries_Cons)

lemma store_entries_own_key:
  "store_ok bs \<Longrightarrow> e \<in> set (store_entries bs) \<Longrightarrow>
     line (snd (snd e)) = fst e \<and> file' (snd (snd e)) = fst (snd e)"
proof (induction bs)
  case Nil
  then show ?case by simp
next
  case (Cons b bs)
  obtain l m where b: "b = (l, m)" by (cases b)
  from Cons.prems(1) b have ok: "\<forall>x \<in> set m. line (snd x) = l \<and> file' (snd x) = fst x"
    "store_ok bs" by (simp_all add: store_ok_Cons)
  from Cons.prems(2) b have "e \<in> (\<lambda>(f, bp). (l, f, bp)) ` set m \<or> e \<in> set (store_entries bs)"
    by (auto simp: store_entries_Cons)
  then show ?case
  proof
    assume "e \<in> (\<lambda>(f, bp). (l, f, bp)) ` set m"
    with ok(1) show ?thesis by force
  next
    assume "e \<in> set (store_entries bs)"
    with Cons.IH ok(2) show ?thesis by simp
  qed
qed

lemma store_entries_distinct_keys:
  "store_ok bs \<Longrightarrow> distinct (map (\<lambda>e. (fst e, fst (snd e))) (store_entries bs))"
proof (induction bs)
  case Nil
  then show ?case by simp
next
  case (Cons b bs)
  obtain l m where b: "b = (l, m)" by (cases b)
  from Cons.prems b have ok: "l \<notin> fst ` set bs" "distinct (map fst m)" "store_ok bs"
    by (simp_all add: store_ok_Cons)
  have k: "map (\<lambda>e. (fst e, fst (snd e))) (map (\<lambda>(f, bp). (l, f, bp)) m) = map (\<lambda>x. (l, fst x)) m"
    by (induction m) auto
  have d1: "distinct (map (\<lambda>x. (l, fst x)) m)"
    using ok(2) by (simp add: distinct_map inj_on_def)
  have d2: "distinct (map (\<lambda>e. (fst e, fst (snd e))) (store_entries bs))"
    using Cons.IH ok(3) by simp
  have disj: "set (map (\<lambda>x. (l, fst x)) m) \<inter>
              set (map (\<lambda>e. (fst e, fst (snd e))) (store_entries bs)) = {}"
    using ok(1) store_entries_keys [of _ bs] by fastforce
  from d1 d2 disj show ?case
    unfolding b store_entries_Cons map_append k by simp
qed

subsection \<open>A resolved entry stays until it is removed\<close>

lemma GetBreakPoint_cong:
  "breakpoints s' = breakpoints s \<Longrightarrow> GetBreakPoint f l s' = GetBreakPoint f l s"
  by (simp add: GetBreakPoint_def)

lemma breakpoints_do_write: "breakpoints (do_write w s) = breakpoints s"
  by (cases w) simp_all

lemma store_inv_thread_step:
  assumes "store_inv s"
  shows "store_inv (snd (thread_step p s))"
proof (cases p)
  case Idle
  with assms show ?thesis by simp
next
  case (Writing ws q)
  with assms show ?thesis
    by (cases ws) (simp_all add: store_inv_def breakpoints_do_write)
next
  case (Decide fr ta)
  with assms show ?thesis by simp
next
  case (Lookup fr ta)
  from assms have "store_inv (ResolveBreakPoints s)" by (rule store_inv_ResolveBreakPoints)
  with assms Lookup show ?thesis by (simp add: Let_def split: option.splits)
next
  case (InUI c q)
  with assms show ?thesis by simp
qed

lemma interleaved_store_inv: "interleaved c \<Longrightarrow> store_inv (snd c)"
proof (induction rule: interleaved.induct)
  case il_init
  show ?case by (simp add: store_inv_def store_ok_def Impl_init_def)
next
  case (il_action p s a)
  then show ?case by (simp add: store_inv_run_action)
next
  case (il_start s)
  then show ?case by simp
next
  case (il_event s fr ta)
  then show ?case by simp
next
  case (il_thread p s)
  then show ?case by (simp add: store_inv_thread_step)
qed

lemma GetBreakPoint_kept_Impl_AddBreakPoint:
  assumes "store_inv s" and "GetBreakPoint f l s = Some held"
  shows "GetBreakPoint f l (snd (Impl_AddBreakPoint bp r s)) = Some held"
proof (cases r)
  case True
  with assms GetBreakPoint_Impl_AddBreakPoint [OF assms(1), of f l bp] show ?thesis by simp
next
  case False
  then have "breakpoints (snd (Impl_AddBreakPoint bp r s)) = breakpoints s"
    by (simp add: Impl_AddBreakPoint_breakpoints)
  then have "GetBreakPoint f l (snd (Impl_AddBreakPoint bp r s)) = GetBreakPoint f l s"
    by (rule GetBreakPoint_cong)
  with assms show ?thesis by simp
qed

lemma GetBreakPoint_kept_ResolveBreakPoints_loop:
  "store_inv s \<Longrightarrow> GetBreakPoint f l s = Some held \<Longrightarrow>
     GetBreakPoint f l (ResolveBreakPoints_loop kept u s) = Some held"
proof (induction kept u s rule: ResolveBreakPoints_loop.induct)
  case (1 kept s)
  then show ?case by (simp add: GetBreakPoint_def)
next
  case (2 kept bp rest s)
  show ?case
  proof (cases "fst (ResolveBreakPoint s bp)")
    case True
    let ?s = "snd (Impl_AddBreakPoint (snd (ResolveBreakPoint s bp)) True s)"
    from 2(3) have inv: "store_inv ?s" by (rule store_inv_Impl_AddBreakPoint)
    from 2(3,4) have g: "GetBreakPoint f l ?s = Some held"
      by (rule GetBreakPoint_kept_Impl_AddBreakPoint)
    from 2(1) [OF True inv g] True show ?thesis by simp
  next
    case False
    from 2(2) [OF False 2(3) 2(4)] False show ?thesis by simp
  qed
qed

lemma GetBreakPoint_ReadScriptLinesHash [simp]:
  "GetBreakPoint f l (ReadScriptLinesHash s) = GetBreakPoint f l s"
  by (simp add: GetBreakPoint_def ReadScriptLinesHash_def)

lemma GetBreakPoint_kept_ResolveBreakPoints:
  assumes "store_inv s" and "GetBreakPoint f l s = Some held"
  shows "GetBreakPoint f l (ResolveBreakPoints s) = Some held"
proof -
  from assms(1) have "store_inv (ReadScriptLinesHash s)" by simp
  moreover from assms(2) have "GetBreakPoint f l (ReadScriptLinesHash s) = Some held" by simp
  ultimately show ?thesis
    unfolding ResolveBreakPoints_def Let_def by (rule GetBreakPoint_kept_ResolveBreakPoints_loop)
qed

lemma GetBreakPoint_kept_Server_AddBreakPoint:
  assumes "store_inv s" and "GetBreakPoint f l s = Some held"
  shows "GetBreakPoint f l (snd (snd (Server_AddBreakPoint bp s))) = Some held"
proof -
  from assms(1) have "store_inv (ReadScriptLinesHash s)" by simp
  moreover from assms(2) have "GetBreakPoint f l (ReadScriptLinesHash s) = Some held" by simp
  ultimately show ?thesis
    unfolding Server_AddBreakPoint_def Let_def snd_conv
    by (rule GetBreakPoint_kept_Impl_AddBreakPoint)
qed

lemma GetBreakPoint_kept_run_action:
  assumes "store_inv s" and "GetBreakPoint f l s = Some held"
    and "\<forall>i. a \<noteq> CallRemoveBreakPoint i"
  shows "GetBreakPoint f l (snd (run_action a s)) = Some held"
proof (cases a)
  case (CallAddBreakPoint bp)
  with GetBreakPoint_kept_Server_AddBreakPoint [OF assms(1,2), of bp] show ?thesis by simp
next
  case (CallRemoveBreakPoint i)
  with assms(3) show ?thesis by simp
next
  case CallGetBreakPoints
  with GetBreakPoint_kept_ResolveBreakPoints [OF assms(1,2)] show ?thesis
    by (simp add: GetBreakPoints_def Let_def)
next
  case (CallShiftActiveFrame up)
  with assms(2) show ?thesis by (simp add: GetBreakPoint_def ShiftActiveFrame_def)
next
  case CallStep
  with assms(2) show ?thesis by (simp add: GetBreakPoint_def Step_def)
next
  case (CallGetCodeLines b e)
  have "breakpoints (snd (GetCodeLines b e s)) = breakpoints s"
    by (simp add: GetCodeLines_def ReadScriptLinesHash_def Let_def split: option.splits)
  then have "GetBreakPoint f l (snd (GetCodeLines b e s)) = GetBreakPoint f l s"
    by (rule GetBreakPoint_cong)
  with assms(2) CallGetCodeLines show ?thesis by simp
next
  case (EngineLoad p ls)
  with assms(2) show ?thesis by (simp add: GetBreakPoint_def)
qed

lemma GetBreakPoint_kept_TraceFunc_enter:
  assumes "store_inv s" and "GetBreakPoint f l s = Some held"
  shows "GetBreakPoint f l (snd (TraceFunc_enter fr ta s)) = Some held"
proof -
  have c: "breakpoints (ClearBreakData s) = breakpoints s" by (simp add: ClearBreakData_def)
  from assms(1) c have inv: "store_inv (ClearBreakData s)" by (simp add: store_inv_def)
  from c have "GetBreakPoint f l (ClearBreakData s) = GetBreakPoint f l s"
    by (rule GetBreakPoint_cong)
  with assms(2) have "GetBreakPoint f l (ClearBreakData s) = Some held" by simp
  with inv have r: "GetBreakPoint f l (ResolveBreakPoints (ClearBreakData s)) = Some held"
    by (rule GetBreakPoint_kept_ResolveBreakPoints)
  from breakpoints_TraceFunc_enter [of fr ta s] show ?thesis
  proof
    assume "breakpoints (snd (TraceFunc_enter fr ta s)) = breakpoints s"
    then have "GetBreakPoint f l (snd (TraceFunc_enter fr ta s)) = GetBreakPoint f l s"
      by (rule GetBreakPoint_cong)
    with assms(2) show ?thesis by simp
  next
    assume "breakpoints (snd (TraceFunc_enter fr ta s)) =
            breakpoints (ResolveBreakPoints (ClearBreakData s))"
    then have "GetBreakPoint f l (snd (TraceFunc_enter fr ta s)) =
               GetBreakPoint f l (ResolveBreakPoints (ClearBreakData s))"
      by (rule GetBreakPoint_cong)
    with r show ?thesis by simp
  qed
qed

lemma GetBreakPoint_kept_thread_step:
  assumes "store_inv s" and "GetBreakPoint f l s = Some held"
  shows "GetBreakPoint f l (snd (thread_step p s)) = Some held"
proof (cases p)
  case Idle
  with assms show ?thesis by simp
next
  case (Writing ws q)
  with assms(2) show ?thesis
    by (cases ws) (simp_all add: GetBreakPoint_def breakpoints_do_write)
next
  case (Decide fr ta)
  with assms show ?thesis by simp
next
  case (Lookup fr ta)
  from assms have "GetBreakPoint f l (ResolveBreakPoints s) = Some held"
    by (rule GetBreakPoint_kept_ResolveBreakPoints)
  with assms(2) Lookup show ?thesis by (simp add: Let_def split: option.splits)
next
  case (InUI c q)
  with assms show ?thesis by simp
qed


subsection \<open>Adding at an occupied key\<close>

lemmas add_eval =
  Server_AddBreakPoint_def ReadScriptLinesHash_def EachKeyValFunc_def std_map_put_def
  std_map_insert_def std_map_subscript_def ResolveBreakPoint_def
  FindSubstringCaseInsensitive_def to_upper_def Impl_AddBreakPoint_def Let_def

lemma state_loaded_eq:
  "state_loaded = Impl_init\<lparr>script_lines_hash := [(''a.rb'', [''x'', ''y''])]\<rparr>"
  by (simp add: state_loaded_def engine_load_def Impl_init_def)

lemma state_one_bp_eq:
  "state_one_bp =
     Impl_init\<lparr>breakpoints := [(1, [(''a.rb'', \<lparr>index = 1, file' = ''a.rb'', line = 1\<rparr>)])],
               last_breakpoint_index := 1,
               script_lines_hash := [(''a.rb'', [''x'', ''y''])],
               script_lines := [(''a.rb'', [''x'', ''y''])]\<rparr>"
  by (simp add: state_one_bp_def state_loaded_eq add_eval Impl_init_def)

lemma reachable_state_one_bp: "reachable state_one_bp"
  unfolding state_one_bp_def state_loaded_def by (intro reach_action reach_init)

lemma state_late_eq:
  "state_late =
     Impl_init\<lparr>unresolved_breakpoints := [\<lparr>index = 1, file' = ''a.rb'', line = 1\<rparr>],
               breakpoints := [(1, [(''a.rb'', \<lparr>index = 2, file' = ''a.rb'', line = 1\<rparr>)])],
               last_breakpoint_index := 2,
               script_lines_hash := [(''a.rb'', [''x'', ''y''])],
               script_lines := [(''a.rb'', [''x'', ''y''])]\<rparr>"
proof -
  have 1: "snd (run_action (CallAddBreakPoint \<lparr>index = 0, file' = ''a.rb'', line = 1\<rparr>) Impl_init) =
      Impl_init\<lparr>unresolved_breakpoints := [\<lparr>index = 1, file' = ''a.rb'', line = 1\<rparr>],
                last_breakpoint_index := 1\<rparr>"
    by (simp add: add_eval Impl_init_def)
  have 2: "snd (run_action (EngineLoad ''a.rb'' [''x'', ''y''])
             (Impl_init\<lparr>unresolved_breakpoints := [\<lparr>index = 1, file' = ''a.rb'', line = 1\<rparr>],
                last_breakpoint_index := 1\<rparr>)) =
      Impl_init\<lparr>unresolved_breakpoints := [\<lparr>index = 1, file' = ''a.rb'', line = 1\<rparr>],
                last_breakpoint_index := 1, script_lines_hash := [(''a.rb'', [''x'', ''y''])]\<rparr>"
    by (simp add: engine_load_def Impl_init_def)
  have 3: "snd (run_action (CallAddBreakPoint \<lparr>index = 0, file' = ''a.rb'', line = 1\<rparr>)
             (Impl_init\<lparr>unresolved_breakpoints := [\<lparr>index = 1, file' = ''a.rb'', line = 1\<rparr>],
                last_breakpoint_index := 1, script_lines_hash := [(''a.rb'', [''x'', ''y''])]\<rparr>)) =
      Impl_init\<lparr>unresolved_breakpoints := [\<lparr>index = 1, file' = ''a.rb'', line = 1\<rparr>],
               breakpoints := [(1, [(''a.rb'', \<lparr>index = 2, file' = ''a.rb'', line = 1\<rparr>)])],
               last_breakpoint_index := 2,
               script_lines_hash := [(''a.rb'', [''x'', ''y''])],
               script_lines := [(''a.rb'', [''x'', ''y''])]\<rparr>"
    by (simp add: add_eval Impl_init_def)
  show ?thesis
    unfolding state_late_def late_calls_def run_actions.simps 1 2 3 ..
qed

lemma state_late_listed:
  "snd (run_action CallGetBreakPoints state_late) =
     state_late\<lparr>unresolved_breakpoints := []\<rparr>"
  by (simp add: state_late_eq GetBreakPoints_def ResolveBreakPoints_def add_eval Impl_init_def)

lemma reachable_state_late: "reachable state_late"
  unfolding state_late_def by (rule reachable_run_actions [OF reach_init])




subsection \<open>The index counter\<close>

lemma ResolveBreakPoint_loop_fields:
  "index (snd (ResolveBreakPoint_loop m bp)) = index bp \<and>
   line (snd (ResolveBreakPoint_loop m bp)) = line bp"
  by (induction m bp rule: ResolveBreakPoint_loop.induct) auto

lemma ResolveBreakPoint_fields [simp]:
  "index (snd (ResolveBreakPoint s bp)) = index bp"
  "line (snd (ResolveBreakPoint s bp)) = line bp"
  by (simp_all add: ResolveBreakPoint_def ResolveBreakPoint_loop_fields)

lemma Impl_AddBreakPoint_counter:
  "last_breakpoint_index (snd (Impl_AddBreakPoint bp r s)) =
     (if index bp = 0 then (last_breakpoint_index s + 1) mod 2 ^ 64 else last_breakpoint_index s)"
  by (simp add: Impl_AddBreakPoint_def Let_def)

lemma Impl_AddBreakPoint_unresolved:
  "unresolved_breakpoints (snd (Impl_AddBreakPoint bp r s)) =
     (if r then unresolved_breakpoints s
      else unresolved_breakpoints s @ [fst (Impl_AddBreakPoint bp r s)])"
  by (simp add: Impl_AddBreakPoint_def Let_def)

lemma ResolveBreakPoints_loop_counter:
  "\<forall>bp \<in> set u. index bp \<noteq> 0 \<Longrightarrow>
     last_breakpoint_index (ResolveBreakPoints_loop kept u s) = last_breakpoint_index s \<and>
     set (unresolved_breakpoints (ResolveBreakPoints_loop kept u s)) \<subseteq> set kept \<union> set u"
proof (induction kept u s rule: ResolveBreakPoints_loop.induct)
  case (1 kept s)
  then show ?case by simp
next
  case (2 kept bp rest s)
  show ?case
  proof (cases "fst (ResolveBreakPoint s bp)")
    case True
    with 2 show ?thesis by (auto simp: Impl_AddBreakPoint_counter)
  next
    case False
    with 2 show ?thesis by auto
  qed
qed

lemma ResolveBreakPoints_counter:
  "indexed s \<Longrightarrow>
     last_breakpoint_index (ResolveBreakPoints s) = last_breakpoint_index s \<and>
     indexed (ResolveBreakPoints s)"
proof -
  assume i: "indexed s"
  let ?s = "ReadScriptLinesHash s"
  have u: "unresolved_breakpoints ?s = unresolved_breakpoints s"
    "last_breakpoint_index ?s = last_breakpoint_index s"
    by (simp_all add: ReadScriptLinesHash_def)
  from i have "\<forall>bp \<in> set (unresolved_breakpoints ?s). index bp \<noteq> 0"
    by (simp add: indexed_def u)
  from ResolveBreakPoints_loop_counter [OF this, of "[]" ?s] i u show ?thesis
    by (auto simp: ResolveBreakPoints_def Let_def indexed_def)
qed

lemma Server_AddBreakPoint_counter:
  assumes "index bp = 0" "last_breakpoint_index s + 1 < 2 ^ 64" "indexed s"
  shows "index (fst (snd (Server_AddBreakPoint bp s))) = last_breakpoint_index s + 1 \<and>
     last_breakpoint_index (snd (snd (Server_AddBreakPoint bp s))) = last_breakpoint_index s + 1 \<and>
     indexed (snd (snd (Server_AddBreakPoint bp s)))"
proof -
  let ?s = "ReadScriptLinesHash s"
  have u: "unresolved_breakpoints ?s = unresolved_breakpoints s"
    "last_breakpoint_index ?s = last_breakpoint_index s"
    by (simp_all add: ReadScriptLinesHash_def)
  from assms(2) have m: "(last_breakpoint_index s + 1) mod 2 ^ 64 = last_breakpoint_index s + 1"
    by simp
  show ?thesis
    using assms(1,3) m u
    by (auto simp: Server_AddBreakPoint_def Let_def Impl_AddBreakPoint_fst
          Impl_AddBreakPoint_counter Impl_AddBreakPoint_unresolved indexed_def)
qed

lemma RemoveBreakPoint_counter:
  "last_breakpoint_index (snd (RemoveBreakPoint i s)) = last_breakpoint_index s \<and>
   (indexed s \<longrightarrow> indexed (snd (RemoveBreakPoint i s)))"
proof (cases "erase_index_resolved i (breakpoints s)")
  case (Some m)
  then show ?thesis by (simp add: RemoveBreakPoint_def indexed_def)
next
  case None
  show ?thesis
  proof (cases "erase_index_unresolved i (unresolved_breakpoints s)")
    case None
    with \<open>erase_index_resolved i (breakpoints s) = None\<close> show ?thesis
      by (simp add: RemoveBreakPoint_def)
  next
    case (Some u)
    from erase_index_unresolved_Some [OF Some] have "set u \<subseteq> set (unresolved_breakpoints s)"
      by auto
    with Some \<open>erase_index_resolved i (breakpoints s) = None\<close> show ?thesis
      by (auto simp: RemoveBreakPoint_def indexed_def)
  qed
qed

lemma other_action_counter:
  assumes "\<And>bp. a \<noteq> CallAddBreakPoint bp" "indexed s"
  shows "last_breakpoint_index (snd (run_action a s)) = last_breakpoint_index s \<and>
     indexed (snd (run_action a s)) \<and> added_indices [fst (run_action a s)] = []"
proof (cases a)
  case (CallAddBreakPoint bp)
  with assms(1) [of bp] show ?thesis by simp
next
  case (CallRemoveBreakPoint i)
  with assms(2) RemoveBreakPoint_counter [of i s] show ?thesis by simp
next
  case CallGetBreakPoints
  with ResolveBreakPoints_counter [OF assms(2)] show ?thesis
    by (simp add: GetBreakPoints_def Let_def)
next
  case (CallShiftActiveFrame up)
  with assms(2) show ?thesis by (simp add: ShiftActiveFrame_def indexed_def)
next
  case CallStep
  with assms(2) show ?thesis by (simp add: Step_def indexed_def)
next
  case (CallGetCodeLines b e)
  with assms(2) show ?thesis
    by (simp add: GetCodeLines_def Let_def ReadScriptLinesHash_def indexed_def
          split: option.splits)
next
  case (EngineLoad p ls)
  with assms(2) show ?thesis by (simp add: indexed_def)
qed

lemma adds_other: "(\<And>bp. a \<noteq> CallAddBreakPoint bp) \<Longrightarrow> adds (a # as) = adds as"
  by (cases a) auto

lemma added_indices_Cons:
  "added_indices (r # rs) = added_indices [r] @ added_indices rs"
  by (cases r) auto

lemma added_indices_run:
  "indexed s \<Longrightarrow> \<forall>bp \<in> set (adds as). index bp = 0 \<Longrightarrow>
   last_breakpoint_index s + length (adds as) < 2 ^ 64 \<Longrightarrow>
     added_indices (replies as s) =
       [last_breakpoint_index s + 1 ..< last_breakpoint_index s + 1 + length (adds as)] \<and>
     last_breakpoint_index (run_actions as s) = last_breakpoint_index s + length (adds as) \<and>
     indexed (run_actions as s)"
proof (induction as arbitrary: s)
  case Nil
  then show ?case by simp
next
  case (Cons a as)
  show ?case
  proof (cases "\<exists>bp. a = CallAddBreakPoint bp")
    case True
    then obtain bp where a: "a = CallAddBreakPoint bp" by blast
    let ?s = "snd (snd (Server_AddBreakPoint bp s))"
    from Cons.prems a have b0: "index bp = 0" and rest0: "\<forall>bp \<in> set (adds as). index bp = 0"
      and bound: "last_breakpoint_index s + 1 < 2 ^ 64" by auto
    from Server_AddBreakPoint_counter [OF b0 bound Cons.prems(1)]
    have st: "index (fst (snd (Server_AddBreakPoint bp s))) = last_breakpoint_index s + 1"
      "last_breakpoint_index ?s = last_breakpoint_index s + 1" "indexed ?s" by simp_all
    from Cons.prems(3) a st(2) have "last_breakpoint_index ?s + length (adds as) < 2 ^ 64"
      by simp
    from Cons.IH [OF st(3) rest0 this]
    have ih: "added_indices (replies as ?s) =
        [last_breakpoint_index ?s + 1 ..< last_breakpoint_index ?s + 1 + length (adds as)]"
      "last_breakpoint_index (run_actions as ?s) = last_breakpoint_index ?s + length (adds as)"
      "indexed (run_actions as ?s)" by simp_all
    have "[last_breakpoint_index s + 1 ..< last_breakpoint_index s + 1 + length (adds (a # as))] =
        (last_breakpoint_index s + 1) #
          [last_breakpoint_index ?s + 1 ..< last_breakpoint_index ?s + 1 + length (adds as)]"
      unfolding st(2) a by (subst upt_rec) simp
    moreover have "added_indices (replies (a # as) s) =
        (last_breakpoint_index s + 1) # added_indices (replies as ?s)"
      using st(1) a by simp
    moreover have "run_actions (a # as) s = run_actions as ?s" using a by simp
    ultimately show ?thesis using ih st(2) a by simp
  next
    case False
    then have na: "\<And>bp. a \<noteq> CallAddBreakPoint bp" by blast
    let ?s = "snd (run_action a s)"
    from other_action_counter [OF na Cons.prems(1)]
    have st: "last_breakpoint_index ?s = last_breakpoint_index s" "indexed ?s"
      "added_indices [fst (run_action a s)] = []" by simp_all
    from Cons.prems adds_other [OF na, of as]
    have "\<forall>bp \<in> set (adds as). index bp = 0"
      "last_breakpoint_index ?s + length (adds as) < 2 ^ 64" by (simp_all add: st(1))
    from Cons.IH [OF st(2) this] st adds_other [OF na, of as]
      added_indices_Cons [of "fst (run_action a s)" "replies as ?s"]
    show ?thesis by simp
  qed
qed

subsection \<open>The indices the server holds\<close>

lemma mset_store_entries_insort:
  "mset (store_entries (insort_key fst (l, m) bs)) =
     mset (map (\<lambda>(f, bp). (l, f, bp)) m) + mset (store_entries bs)"
proof (induction bs)
  case Nil
  then show ?case by (simp add: store_entries_Cons)
next
  case (Cons b bs)
  obtain l' m' where b: "b = (l', m')" by (cases b)
  with Cons show ?case by (simp add: store_entries_Cons)
qed

lemma mset_store_entries_replace:
  "distinct (map fst bs) \<Longrightarrow> map_of bs l = Some m \<Longrightarrow>
     mset (store_entries (map (\<lambda>e. if fst e = l then (l, m') else e) bs)) +
       mset (map (\<lambda>(f, bp). (l, f, bp)) m) =
     mset (store_entries bs) + mset (map (\<lambda>(f, bp). (l, f, bp)) m')"
proof (induction bs)
  case Nil
  then show ?case by simp
next
  case (Cons b bs)
  obtain l0 m0 where b: "b = (l0, m0)" by (cases b)
  show ?case
  proof (cases "l0 = l")
    case True
    with Cons.prems b have m0: "m0 = m" and nk: "l \<notin> fst ` set bs" by auto
    from nk have "map (\<lambda>e. if fst e = l then (l, m') else e) bs = bs"
      by (induction bs) auto
    with True b m0 show ?thesis by (simp add: store_entries_Cons)
  next
    case False
    with Cons b show ?thesis by (simp add: store_entries_Cons)
  qed
qed

lemma mset_store_entries_add_free:
  assumes inv: "store_inv s" and free: "GetBreakPoint (file' bp) (line bp) s = None"
  shows "mset (store_entries (breakpoints (snd (Impl_AddBreakPoint bp True s)))) =
     add_mset (line bp, file' bp, fst (Impl_AddBreakPoint bp True s))
       (mset (store_entries (breakpoints s)))"
proof (cases "map_of (breakpoints s) (line bp)")
  case None
  then have "breakpoints (snd (Impl_AddBreakPoint bp True s)) =
      insort_key fst (line bp, [(file' bp, fst (Impl_AddBreakPoint bp True s))]) (breakpoints s)"
    by (simp add: Impl_AddBreakPoint_breakpoints std_map_subscript_def std_map_insert_def
          std_map_put_def)
  then show ?thesis by (simp add: mset_store_entries_insort)
next
  case (Some m)
  let ?bp = "fst (Impl_AddBreakPoint bp True s)"
  let ?k = "\<lambda>(f, b). (line bp, f, b)"
  from free Some have nf: "map_of m (file' bp) = None" by (simp add: GetBreakPoint_def)
  with Some have eq: "breakpoints (snd (Impl_AddBreakPoint bp True s)) =
      map (\<lambda>e. if fst e = line bp then (line bp, insort_key fst (file' bp, ?bp) m) else e)
        (breakpoints s)"
    by (simp add: Impl_AddBreakPoint_breakpoints std_map_subscript_def std_map_insert_def
          std_map_put_def)
  from inv have d: "distinct (map fst (breakpoints s))" by (simp add: store_inv_def store_ok_def)
  from mset_store_entries_replace [OF d Some, of "insort_key fst (file' bp, ?bp) m"]
  have "mset (store_entries (breakpoints (snd (Impl_AddBreakPoint bp True s)))) + mset (map ?k m) =
      add_mset (line bp, file' bp, ?bp) (mset (store_entries (breakpoints s))) + mset (map ?k m)"
    by (simp add: eq)
  then show ?thesis by simp
qed

lemma stored_indices_alt:
  "mset (stored_indices s) =
     image_mset (\<lambda>e. index (snd (snd e))) (mset (store_entries (breakpoints s))) +
     image_mset index (mset (unresolved_breakpoints s))"
  by (simp add: stored_indices_def resolved_list_def resolved_entries_def comp_def)

lemma stored_indices_Impl_AddBreakPoint:
  assumes inv: "store_inv s"
  shows "mset (stored_indices (snd (Impl_AddBreakPoint bp r s))) =
     (if r \<and> GetBreakPoint (file' bp) (line bp) s \<noteq> None then mset (stored_indices s)
      else add_mset (index (fst (Impl_AddBreakPoint bp r s))) (mset (stored_indices s)))"
proof (cases r)
  case False
  then show ?thesis
    by (simp add: stored_indices_alt Impl_AddBreakPoint_unresolved Impl_AddBreakPoint_breakpoints)
next
  case True
  show ?thesis
  proof (cases "GetBreakPoint (file' bp) (line bp) s")
    case None
    from mset_store_entries_add_free [OF inv None] True None show ?thesis
      by (simp add: stored_indices_alt Impl_AddBreakPoint_unresolved)
  next
    case (Some old)
    from breakpoints_Impl_AddBreakPoint_occupied [OF inv Some] True Some show ?thesis
      by (simp add: stored_indices_alt Impl_AddBreakPoint_unresolved)
  qed
qed

lemma stored_indices_RemoveBreakPoint:
  "mset (stored_indices (snd (RemoveBreakPoint i s))) = mset (stored_indices s) - {#i#}"
proof (cases "erase_index_resolved i (breakpoints s)")
  case (Some bs')
  from erase_index_resolved_Some [OF Some] obtain pre e post where
    r: "store_entries (breakpoints s) = pre @ e # post" "index (snd (snd e)) = i"
       "store_entries bs' = pre @ post" by blast
  with Some show ?thesis by (simp add: RemoveBreakPoint_def stored_indices_alt)
next
  case None
  then have nr: "\<forall>e \<in> set (store_entries (breakpoints s)). index (snd (snd e)) \<noteq> i"
    by (simp add: erase_index_resolved_None)
  show ?thesis
  proof (cases "erase_index_unresolved i (unresolved_breakpoints s)")
    case (Some u')
    from erase_index_unresolved_Some [OF Some] obtain pre bp post where
      r: "unresolved_breakpoints s = pre @ bp # post" "index bp = i" "u' = pre @ post" by blast
    with None Some show ?thesis by (simp add: RemoveBreakPoint_def stored_indices_alt)
  next
    case None
    then have "\<forall>bp \<in> set (unresolved_breakpoints s). index bp \<noteq> i"
      by (simp add: erase_index_unresolved_None)
    with nr have "i \<notin># mset (stored_indices s)"
      by (auto simp: stored_indices_alt)
    with None \<open>erase_index_resolved i (breakpoints s) = None\<close> show ?thesis
      by (simp add: RemoveBreakPoint_def)
  qed
qed

lemma stored_indices_Server_AddBreakPoint:
  assumes inv: "store_inv s"
  shows "mset (stored_indices (snd (snd (Server_AddBreakPoint bp s)))) =
     (if fst (ResolveBreakPoint (ReadScriptLinesHash s) bp) \<and>
         GetBreakPoint (file' (snd (ResolveBreakPoint (ReadScriptLinesHash s) bp))) (line bp) s \<noteq> None
      then mset (stored_indices s)
      else add_mset (index (fst (snd (Server_AddBreakPoint bp s)))) (mset (stored_indices s)))"
proof -
  let ?s = "ReadScriptLinesHash s"
  have same: "GetBreakPoint f l ?s = GetBreakPoint f l s" "stored_indices ?s = stored_indices s" for f l
    by (simp_all add: GetBreakPoint_def stored_indices_def resolved_list_def resolved_entries_def
          ReadScriptLinesHash_def)
  from inv have "store_inv ?s" by simp
  from stored_indices_Impl_AddBreakPoint [OF this,
      of "snd (ResolveBreakPoint ?s bp)" "fst (ResolveBreakPoint ?s bp)"]
  show ?thesis by (simp add: Server_AddBreakPoint_def Let_def same)
qed

subsection \<open>Indices over a sequence of calls\<close>

lemma fresh_server_facts:
  "store_inv (fresh_server h)" "indexed (fresh_server h)"
  "last_breakpoint_index (fresh_server h) = 0" "stored_indices (fresh_server h) = []"
  "GetBreakPoint f l (fresh_server h) = None"
  by (simp_all add: fresh_server_def Impl_init_def store_inv_def store_ok_def indexed_def
        stored_indices_def resolved_list_def resolved_entries_def GetBreakPoint_def)

lemma three_adds_remove_second:
  assumes z: "index b1 = 0" "index b2 = 0" "index b3 = 0"
    and free: "fst (ResolveBreakPoint
                 (ReadScriptLinesHash (run_actions [CallAddBreakPoint b1, CallAddBreakPoint b2] (fresh_server h))) b3) \<longrightarrow>
               GetBreakPoint
                 (file' (snd (ResolveBreakPoint
                    (ReadScriptLinesHash (run_actions [CallAddBreakPoint b1, CallAddBreakPoint b2] (fresh_server h))) b3)))
                 (line b3)
                 (run_actions [CallAddBreakPoint b1, CallAddBreakPoint b2] (fresh_server h)) = None"
  shows "mset (stored_indices
           (run_actions [CallAddBreakPoint b1, CallAddBreakPoint b2, CallAddBreakPoint b3,
                         CallRemoveBreakPoint 2] (fresh_server h))) = {#1, 3#}"
proof -
  let ?s0 = "fresh_server h"
  let ?s1 = "snd (snd (Server_AddBreakPoint b1 ?s0))"
  let ?s2 = "snd (snd (Server_AddBreakPoint b2 ?s1))"
  let ?s3 = "snd (snd (Server_AddBreakPoint b3 ?s2))"
  have c1: "index (fst (snd (Server_AddBreakPoint b1 ?s0))) = 1"
    "last_breakpoint_index ?s1 = 1" "indexed ?s1"
    using Server_AddBreakPoint_counter [OF z(1), of ?s0] by (simp_all add: fresh_server_facts)
  have c2: "index (fst (snd (Server_AddBreakPoint b2 ?s1))) = 2"
    "last_breakpoint_index ?s2 = 2" "indexed ?s2"
    using Server_AddBreakPoint_counter [OF z(2), of ?s1] c1 by simp_all
  have c3: "index (fst (snd (Server_AddBreakPoint b3 ?s2))) = 3"
    using Server_AddBreakPoint_counter [OF z(3), of ?s2] c2 by simp
  have i1: "store_inv ?s1" by (simp add: store_inv_Server_AddBreakPoint fresh_server_facts)
  then have i2: "store_inv ?s2" by (rule store_inv_Server_AddBreakPoint)
  have m1: "mset (stored_indices ?s1) = {#1#}"
    using stored_indices_Server_AddBreakPoint [OF fresh_server_facts(1), of b1 h] c1(1)
    by (simp add: fresh_server_facts)
  have m2: "mset (stored_indices ?s2) = {#1#} \<or> mset (stored_indices ?s2) = {#2, 1#}"
    using stored_indices_Server_AddBreakPoint [OF i1, of b2] c2(1) m1
    by (auto split: if_splits)
  have s2: "run_actions [CallAddBreakPoint b1, CallAddBreakPoint b2] ?s0 = ?s2" by simp
  have m3: "mset (stored_indices ?s3) = add_mset 3 (mset (stored_indices ?s2))"
    using stored_indices_Server_AddBreakPoint [OF i2, of b3] c3 free
    unfolding s2 by (auto split: if_splits)
  have "run_actions [CallAddBreakPoint b1, CallAddBreakPoint b2, CallAddBreakPoint b3,
                     CallRemoveBreakPoint 2] ?s0 = snd (RemoveBreakPoint 2 ?s3)" by simp
  then have "mset (stored_indices
           (run_actions [CallAddBreakPoint b1, CallAddBreakPoint b2, CallAddBreakPoint b3,
                         CallRemoveBreakPoint 2] ?s0)) = add_mset 3 (mset (stored_indices ?s2)) - {#2#}"
    by (simp only: stored_indices_RemoveBreakPoint m3)
  with m2 show ?thesis by auto
qed

text \<open>
  C4 (amended). Over every sequence of actions in which each added breakpoint arrives
  with index 0, starting where every unresolved breakpoint has an index and short
  enough for the counter (a \<^verbatim>\<open>size_t\<close>) not to wrap, the additions are given the next
  values of the counter one after the other: the indices are non-zero, strictly
  increasing and so never given twice, whatever is removed in between. On a server
  just constructed, three additions of which the third does not resolve to a file and
  line that is already taken, followed by the removal of index 2, leave the indices 1
  and 3, and a fourth addition takes index 4.
\<close>

theorem indices_never_reused:
  "(indexed s \<and> (\<forall>bp \<in> set (adds as). index bp = 0) \<and>
    last_breakpoint_index s + length (adds as) < 2 ^ 64 \<longrightarrow>
      added_indices (replies as s) =
        [last_breakpoint_index s + 1 ..< last_breakpoint_index s + 1 + length (adds as)] \<and>
      sorted_wrt (<) (added_indices (replies as s)) \<and>
      0 \<notin> set (added_indices (replies as s))) \<and>
   (index b1 = 0 \<and> index b2 = 0 \<and> index b3 = 0 \<and> index b4 = 0 \<and>
    (fst (ResolveBreakPoint
            (ReadScriptLinesHash (run_actions [CallAddBreakPoint b1, CallAddBreakPoint b2] (fresh_server h))) b3) \<longrightarrow>
     GetBreakPoint
       (file' (snd (ResolveBreakPoint
          (ReadScriptLinesHash (run_actions [CallAddBreakPoint b1, CallAddBreakPoint b2] (fresh_server h))) b3)))
       (line b3)
       (run_actions [CallAddBreakPoint b1, CallAddBreakPoint b2] (fresh_server h)) = None) \<longrightarrow>
      mset (stored_indices
              (run_actions [CallAddBreakPoint b1, CallAddBreakPoint b2, CallAddBreakPoint b3,
                            CallRemoveBreakPoint 2] (fresh_server h))) = {#1, 3#} \<and>
      added_indices
        (replies [CallAddBreakPoint b1, CallAddBreakPoint b2, CallAddBreakPoint b3,
                  CallRemoveBreakPoint 2, CallAddBreakPoint b4] (fresh_server h)) = [1, 2, 3, 4])"
proof (intro conjI impI)
  assume a: "indexed s \<and> (\<forall>bp \<in> set (adds as). index bp = 0) \<and>
    last_breakpoint_index s + length (adds as) < 2 ^ 64"
  then have eq: "added_indices (replies as s) =
        [last_breakpoint_index s + 1 ..< last_breakpoint_index s + 1 + length (adds as)]"
    using added_indices_run [of s as] by simp
  then show "added_indices (replies as s) =
        [last_breakpoint_index s + 1 ..< last_breakpoint_index s + 1 + length (adds as)]" .
  show "sorted_wrt (<) (added_indices (replies as s))"
    unfolding eq by (rule sorted_wrt_upt)
  show "0 \<notin> set (added_indices (replies as s))"
    unfolding eq set_upt by simp
next
  assume a: "index b1 = 0 \<and> index b2 = 0 \<and> index b3 = 0 \<and> index b4 = 0 \<and>
    (fst (ResolveBreakPoint
            (ReadScriptLinesHash (run_actions [CallAddBreakPoint b1, CallAddBreakPoint b2] (fresh_server h))) b3) \<longrightarrow>
     GetBreakPoint
       (file' (snd (ResolveBreakPoint
          (ReadScriptLinesHash (run_actions [CallAddBreakPoint b1, CallAddBreakPoint b2] (fresh_server h))) b3)))
       (line b3)
       (run_actions [CallAddBreakPoint b1, CallAddBreakPoint b2] (fresh_server h)) = None)"
  then show "mset (stored_indices
              (run_actions [CallAddBreakPoint b1, CallAddBreakPoint b2, CallAddBreakPoint b3,
                            CallRemoveBreakPoint 2] (fresh_server h))) = {#1, 3#}"
    using three_adds_remove_second [of b1 b2 b3 h] by blast
  let ?as = "[CallAddBreakPoint b1, CallAddBreakPoint b2, CallAddBreakPoint b3,
                  CallRemoveBreakPoint 2, CallAddBreakPoint b4]"
  have "adds ?as = [b1, b2, b3, b4]" by simp
  with a have "\<forall>bp \<in> set (adds ?as). index bp = 0"
    "last_breakpoint_index (fresh_server h) + length (adds ?as) < 2 ^ 64"
    by (simp_all add: fresh_server_facts)
  from added_indices_run [OF fresh_server_facts(2) this]
  have "added_indices (replies ?as (fresh_server h)) = [0 + 1 ..< 0 + 1 + length [b1, b2, b3, b4]]"
    by (simp only: fresh_server_facts \<open>adds ?as = [b1, b2, b3, b4]\<close>)
  also have "\<dots> = [1, 2, 3, 4]" by (simp add: upt_rec)
  finally show "added_indices (replies ?as (fresh_server h)) = [1, 2, 3, 4]" .
qed

subsection \<open>The sample additions, evaluated\<close>

lemma state_loaded_fresh: "state_loaded = fresh_server [(''a.rb'', [''x'', ''y''])]"
  by (simp add: state_loaded_eq fresh_server_def)

lemma add_line2:
  "Server_AddBreakPoint \<lparr>index = 0, file' = ''a.rb'', line = 2\<rparr> state_one_bp =
     (True, \<lparr>index = 2, file' = ''a.rb'', line = 2\<rparr>,
      state_one_bp\<lparr>breakpoints :=
          [(1, [(''a.rb'', \<lparr>index = 1, file' = ''a.rb'', line = 1\<rparr>)]),
           (2, [(''a.rb'', \<lparr>index = 2, file' = ''a.rb'', line = 2\<rparr>)])],
        last_breakpoint_index := 2\<rparr>)"
  by (simp add: state_one_bp_eq add_eval Impl_init_def)

lemma state_two_bp_eq:
  "state_two_bp =
     state_one_bp\<lparr>breakpoints :=
          [(1, [(''a.rb'', \<lparr>index = 1, file' = ''a.rb'', line = 1\<rparr>)]),
           (2, [(''a.rb'', \<lparr>index = 2, file' = ''a.rb'', line = 2\<rparr>)])],
        last_breakpoint_index := 2\<rparr>"
  by (simp add: state_two_bp_def add_line2)

lemma add_line1_again:
  "Server_AddBreakPoint \<lparr>index = 0, file' = ''A.RB'', line = 1\<rparr> state_two_bp =
     (True, \<lparr>index = 3, file' = ''a.rb'', line = 1\<rparr>, state_two_bp\<lparr>last_breakpoint_index := 3\<rparr>)"
  by (simp add: state_two_bp_eq state_one_bp_eq add_eval Impl_init_def)

lemma remove_second:
  "RemoveBreakPoint 2 (state_two_bp\<lparr>last_breakpoint_index := 3\<rparr>) =
     (True, state_one_bp\<lparr>last_breakpoint_index := 3\<rparr>)"
  by (simp add: state_two_bp_eq state_one_bp_eq RemoveBreakPoint_def Impl_init_def)

lemma line3_unresolved:
  "\<not> fst (ResolveBreakPoint (ReadScriptLinesHash state_two_bp) \<lparr>index = 0, file' = ''a.rb'', line = 3\<rparr>)"
  by (simp add: state_two_bp_eq state_one_bp_eq add_eval Impl_init_def)

text \<open>Adding at the taken line 1 only moves the counter.\<close>

lemma add_line1_counter:
  "Server_AddBreakPoint \<lparr>index = 0, file' = ''a.rb'', line = 1\<rparr>
     (state_one_bp\<lparr>last_breakpoint_index := n\<rparr>) =
     (True, \<lparr>index = (n + 1) mod 2 ^ 64, file' = ''a.rb'', line = 1\<rparr>,
      state_one_bp\<lparr>last_breakpoint_index := (n + 1) mod 2 ^ 64\<rparr>)"
  by (simp add: state_one_bp_eq add_eval Impl_init_def)

lemma add_line1_funpow:
  "k + 1 < 2 ^ 64 \<Longrightarrow>
   ((\<lambda>s. snd (run_action (CallAddBreakPoint \<lparr>index = 0, file' = ''a.rb'', line = 1\<rparr>) s)) ^^ k)
      state_one_bp = state_one_bp\<lparr>last_breakpoint_index := k + 1\<rparr>"
proof (induction k)
  case 0
  then show ?case by (simp add: state_one_bp_eq Impl_init_def)
next
  case (Suc k)
  let ?f = "\<lambda>s. snd (run_action (CallAddBreakPoint \<lparr>index = 0, file' = ''a.rb'', line = 1\<rparr>) s)"
  from Suc.prems have m: "(k + 1 + 1) mod 2 ^ 64 = (Suc k + 1 :: nat)" by simp
  from Suc have ih: "(?f ^^ k) state_one_bp = state_one_bp\<lparr>last_breakpoint_index := k + 1\<rparr>"
    by simp
  have "(?f ^^ Suc k) state_one_bp = ?f ((?f ^^ k) state_one_bp)" by simp
  also have "\<dots> = ?f (state_one_bp\<lparr>last_breakpoint_index := k + 1\<rparr>)"
    by (simp only: ih)
  also have "\<dots> = state_one_bp\<lparr>last_breakpoint_index := (k + 1 + 1) mod 2 ^ 64\<rparr>"
    by (simp only: run_action.simps add_line1_counter snd_conv)
  finally show ?case by (simp only: m)
qed

lemma state_counter_full_eq:
  "state_counter_full = state_one_bp\<lparr>last_breakpoint_index := 18446744073709551615\<rparr>"
  unfolding state_counter_full_def
  using add_line1_funpow [of 18446744073709551614] by simp

lemma reachable_funpow:
  "reachable s \<Longrightarrow> reachable (((\<lambda>s. snd (run_action a s)) ^^ k) s)"
  by (induction k) (auto intro: reach_action)

lemma reachable_state_counter_full: "reachable state_counter_full"
  unfolding state_counter_full_def by (intro reachable_funpow reachable_state_one_bp)

lemma add_line1:
  "Server_AddBreakPoint \<lparr>index = 0, file' = ''a.rb'', line = 1\<rparr> state_loaded =
     (True, \<lparr>index = 1, file' = ''a.rb'', line = 1\<rparr>, state_one_bp)"
  by (simp add: state_one_bp_eq state_loaded_eq add_eval Impl_init_def)

lemma add_line2_two:
  "Server_AddBreakPoint \<lparr>index = 0, file' = ''a.rb'', line = 2\<rparr> state_one_bp =
     (True, \<lparr>index = 2, file' = ''a.rb'', line = 2\<rparr>, state_two_bp)"
  by (simp add: add_line2 state_two_bp_eq)

lemma run_colliding_calls:
  "replies colliding_calls state_loaded =
     [Added True \<lparr>index = 1, file' = ''a.rb'', line = 1\<rparr>,
      Added True \<lparr>index = 2, file' = ''a.rb'', line = 2\<rparr>,
      Added True \<lparr>index = 3, file' = ''a.rb'', line = 1\<rparr>, Removed True]"
  "run_actions colliding_calls state_loaded = state_one_bp\<lparr>last_breakpoint_index := 3\<rparr>"
  by (simp_all only: colliding_calls_def replies.simps run_actions.simps run_action.simps
        add_line1 add_line2_two add_line1_again remove_second fst_conv snd_conv)

theorem indices_never_reused_counterexample:
  "map index (adds colliding_calls) = [0, 0, 0] \<and>
   reachable (run_actions colliding_calls state_loaded) \<and>
   added_indices (replies colliding_calls state_loaded) = [1, 2, 3] \<and>
   stored_indices (run_actions colliding_calls state_loaded) = [1] \<and>
   reachable state_counter_full \<and>
   last_breakpoint_index state_counter_full = 2 ^ 64 - 1 \<and>
   index (fst (snd (Server_AddBreakPoint \<lparr>index = 0, file' = ''a.rb'', line = 1\<rparr>
                      state_counter_full))) = 0"
proof -
  have "reachable state_loaded"
    unfolding state_loaded_def by (intro reach_action reach_init)
  then have r: "reachable (run_actions colliding_calls state_loaded)"
    by (rule reachable_run_actions)
  have a: "map index (adds colliding_calls) = [0, 0, 0]"
    by (simp add: colliding_calls_def)
  have i: "added_indices (replies colliding_calls state_loaded) = [1, 2, 3]"
    by (simp add: run_colliding_calls)
  have s: "stored_indices (run_actions colliding_calls state_loaded) = [1]"
    by (simp add: run_colliding_calls state_one_bp_eq stored_indices_def resolved_list_def
          resolved_entries_def store_entries_def Impl_init_def)
  have c: "last_breakpoint_index state_counter_full = 2 ^ 64 - 1"
    by (simp add: state_counter_full_eq)
  have w: "index (fst (snd (Server_AddBreakPoint \<lparr>index = 0, file' = ''a.rb'', line = 1\<rparr>
                      state_counter_full))) = 0"
    by (simp only: state_counter_full_eq add_line1_counter) simp
  from a r i s reachable_state_counter_full c w show ?thesis by blast
qed

theorem indices_never_reused_witness:
  "indexed state_loaded \<and> map index (adds sample_calls) = [0, 0, 0, 0] \<and>
   \<not> fst (ResolveBreakPoint (ReadScriptLinesHash state_two_bp)
            \<lparr>index = 0, file' = ''a.rb'', line = 3\<rparr>) \<and>
   added_indices (replies sample_calls state_loaded) = [1, 2, 3, 4] \<and>
   mset (stored_indices (run_actions (butlast sample_calls) state_loaded)) = {#1, 3#}"
proof -
  let ?h = "[(''a.rb'', [''x'', ''y''])]"
  let ?b1 = "\<lparr>index = 0, file' = ''a.rb'', line = 1\<rparr>"
  let ?b2 = "\<lparr>index = 0, file' = ''a.rb'', line = 2\<rparr>"
  let ?b3 = "\<lparr>index = 0, file' = ''a.rb'', line = 3\<rparr>"
  let ?b4 = "\<lparr>index = 0, file' = ''b.rb'', line = 1\<rparr>"
  have ix: "indexed state_loaded" by (simp add: state_loaded_fresh fresh_server_facts)
  have ad: "map index (adds sample_calls) = [0, 0, 0, 0]" by (simp add: sample_calls_def)
  have two: "run_actions [CallAddBreakPoint ?b1, CallAddBreakPoint ?b2] (fresh_server ?h) = state_two_bp"
    by (simp only: run_actions.simps run_action.simps state_loaded_fresh [symmetric]
          add_line1 add_line2_two snd_conv)
  have z: "index ?b1 = 0 \<and> index ?b2 = 0 \<and> index ?b3 = 0 \<and> index ?b4 = 0" by simp
  from indices_never_reused [of state_loaded sample_calls ?b1 ?b2 ?b3 ?b4 ?h]
    line3_unresolved z
  have "mset (stored_indices
              (run_actions [CallAddBreakPoint ?b1, CallAddBreakPoint ?b2, CallAddBreakPoint ?b3,
                            CallRemoveBreakPoint 2] (fresh_server ?h))) = {#1, 3#} \<and>
      added_indices
        (replies [CallAddBreakPoint ?b1, CallAddBreakPoint ?b2, CallAddBreakPoint ?b3,
                  CallRemoveBreakPoint 2, CallAddBreakPoint ?b4] (fresh_server ?h)) = [1, 2, 3, 4]"
    unfolding two by blast
  then have "added_indices (replies sample_calls state_loaded) = [1, 2, 3, 4] \<and>
     mset (stored_indices (run_actions (butlast sample_calls) state_loaded)) = {#1, 3#}"
    by (simp add: sample_calls_def state_loaded_fresh)
  with ix ad line3_unresolved show ?thesis by blast
qed

subsection \<open>The lists are in key order\<close>

text \<open>
  In every state of the server the registry and the store are lists in the order of
  their keys without a repeated key: the order in which the properties above walk
  them is the order in which the code walks its maps.
\<close>

lemma sorted_std_map_put:
  "sorted (map fst m) \<Longrightarrow> sorted (map fst (std_map_put k v m))"
  by (auto simp: std_map_put_def keys_replace sorted_insort_key split: option.splits)

lemma sorted_std_map_insert:
  "sorted (map fst m) \<Longrightarrow> sorted (map fst (std_map_insert k v m))"
  by (auto simp: std_map_insert_def sorted_insort_key split: option.splits)

lemma std_map_insert_not_Nil: "std_map_insert k v m \<noteq> []"
  by (cases m) (auto simp: std_map_insert_def split: option.splits)

lemma fold_EachKeyValFunc_sorted:
  "sorted (map fst m) \<and> distinct (map fst m) \<Longrightarrow>
     sorted (map fst (fold EachKeyValFunc h m)) \<and> distinct (map fst (fold EachKeyValFunc h m))"
proof (induction h arbitrary: m)
  case Nil
  then show ?case by simp
next
  case (Cons kv h)
  from Cons.prems have "sorted (map fst (EachKeyValFunc kv m)) \<and>
      distinct (map fst (EachKeyValFunc kv m))"
    by (auto simp: EachKeyValFunc_def sorted_std_map_put distinct_std_map_put
             split: option.splits)
  from Cons.IH [OF this] show ?case by simp
qed

lemma maps_sorted_ReadScriptLinesHash:
  "maps_sorted s \<Longrightarrow> maps_sorted (ReadScriptLinesHash s)"
  using fold_EachKeyValFunc_sorted [of "script_lines s" "script_lines_hash s"]
  by (simp add: maps_sorted_def ReadScriptLinesHash_def)

lemma script_lines_Impl_AddBreakPoint [simp]:
  "script_lines (snd (Impl_AddBreakPoint bp r s)) = script_lines s"
  by (simp add: Impl_AddBreakPoint_def Let_def)

lemma maps_sorted_Impl_AddBreakPoint:
  assumes "maps_sorted s"
  shows "maps_sorted (snd (Impl_AddBreakPoint bp r s))"
proof (cases r)
  case False
  with assms show ?thesis by (simp add: maps_sorted_def Impl_AddBreakPoint_breakpoints)
next
  case True
  let ?m = "std_map_subscript (line bp) [] (breakpoints s)"
  let ?m' = "std_map_insert (file' bp) (fst (Impl_AddBreakPoint bp r s)) ?m"
  have "sorted (map fst ?m)"
  proof (cases "map_of (breakpoints s) (line bp)")
    case None
    then show ?thesis by (simp add: std_map_subscript_def)
  next
    case (Some m)
    then have "(line bp, m) \<in> set (breakpoints s)" by (rule map_of_SomeD)
    with assms Some show ?thesis by (force simp: maps_sorted_def std_map_subscript_def)
  qed
  then have m': "sorted (map fst ?m')" "?m' \<noteq> []"
    by (simp_all add: sorted_std_map_insert std_map_insert_not_Nil)
  have "\<forall>e \<in> set (std_map_put (line bp) ?m' (breakpoints s)). sorted (map fst (snd e)) \<and> snd e \<noteq> []"
  proof
    fix e assume "e \<in> set (std_map_put (line bp) ?m' (breakpoints s))"
    then have "e = (line bp, ?m') \<or> e \<in> set (breakpoints s)" using set_std_map_put by fastforce
    with m' assms show "sorted (map fst (snd e)) \<and> snd e \<noteq> []"
      by (auto simp: maps_sorted_def)
  qed
  with assms True show ?thesis
    by (simp add: maps_sorted_def Impl_AddBreakPoint_breakpoints sorted_std_map_put)
qed

lemma erase_index_resolved_sorted:
  "erase_index_resolved i bs = Some bs' \<Longrightarrow>
   sorted (map fst bs) \<Longrightarrow> \<forall>e \<in> set bs. sorted (map fst (snd e)) \<and> snd e \<noteq> [] \<Longrightarrow>
     sorted (map fst bs') \<and> (\<forall>e \<in> set bs'. sorted (map fst (snd e)) \<and> snd e \<noteq> [])"
proof (induction i bs arbitrary: bs' rule: erase_index_resolved.induct)
  case (1 i)
  then show ?case by simp
next
  case (2 i l m rest)
  show ?case
  proof (cases "erase_index_inner i m")
    case None
    with 2(2) obtain r' where r': "erase_index_resolved i rest = Some r'" "bs' = (l, m) # r'"
      by auto
    from 2(3,4) have "sorted (map fst rest)"
      "\<forall>e \<in> set rest. sorted (map fst (snd e)) \<and> snd e \<noteq> []" by simp_all
    from 2(1) [OF None r'(1) this]
    have ih: "sorted (map fst r')" "\<forall>e \<in> set r'. sorted (map fst (snd e)) \<and> snd e \<noteq> []"
      by simp_all
    from erase_index_resolved_keys [OF r'(1)] 2(3) have "\<forall>k \<in> fst ` set r'. l \<le> k"
      by fastforce
    with ih 2(4) r'(2) show ?thesis by auto
  next
    case (Some m')
    from erase_index_inner_Some [OF Some] obtain pre x post where
      "m = pre @ x # post" "m' = pre @ post" by blast
    with 2(4) have "sorted (map fst m')" by (auto simp: sorted_append)
    with 2(2,3,4) Some show ?thesis by (auto split: if_splits)
  qed
qed

lemma maps_sorted_RemoveBreakPoint:
  "maps_sorted s \<Longrightarrow> maps_sorted (snd (RemoveBreakPoint i s))"
proof (cases "erase_index_resolved i (breakpoints s)")
  case None
  assume "maps_sorted s"
  with None show ?thesis by (simp add: RemoveBreakPoint_def maps_sorted_def split: option.splits)
next
  case (Some bs')
  assume ms: "maps_sorted s"
  with erase_index_resolved_sorted [OF Some] Some show ?thesis
    by (simp add: RemoveBreakPoint_def maps_sorted_def)
qed

lemma maps_sorted_ResolveBreakPoints_loop:
  "maps_sorted s \<Longrightarrow> maps_sorted (ResolveBreakPoints_loop kept u s)"
proof (induction kept u s rule: ResolveBreakPoints_loop.induct)
  case (1 kept s)
  then show ?case by (simp add: maps_sorted_def)
next
  case (2 kept bp rest s)
  then show ?case by (simp add: maps_sorted_Impl_AddBreakPoint)
qed

lemma maps_sorted_ResolveBreakPoints:
  "maps_sorted s \<Longrightarrow> maps_sorted (ResolveBreakPoints s)"
  by (simp add: ResolveBreakPoints_def Let_def maps_sorted_ResolveBreakPoints_loop
        maps_sorted_ReadScriptLinesHash)

lemma maps_sorted_run_action:
  "maps_sorted s \<Longrightarrow> maps_sorted (snd (run_action a s))"
proof (cases a)
  case (CallAddBreakPoint bp)
  assume "maps_sorted s"
  with CallAddBreakPoint show ?thesis
    by (simp add: Server_AddBreakPoint_def Let_def maps_sorted_Impl_AddBreakPoint
          maps_sorted_ReadScriptLinesHash)
next
  case (CallRemoveBreakPoint i)
  assume "maps_sorted s"
  with CallRemoveBreakPoint show ?thesis by (simp add: maps_sorted_RemoveBreakPoint)
next
  case CallGetBreakPoints
  assume "maps_sorted s"
  with CallGetBreakPoints show ?thesis
    by (simp add: GetBreakPoints_def Let_def maps_sorted_ResolveBreakPoints)
next
  case (CallShiftActiveFrame up)
  assume "maps_sorted s"
  with CallShiftActiveFrame show ?thesis by (simp add: maps_sorted_def ShiftActiveFrame_def)
next
  case CallStep
  assume "maps_sorted s"
  with CallStep show ?thesis by (simp add: maps_sorted_def Step_def)
next
  case (CallGetCodeLines b e)
  assume "maps_sorted s"
  with CallGetCodeLines maps_sorted_ReadScriptLinesHash [of s] show ?thesis
    by (simp add: GetCodeLines_def Let_def split: option.splits)
next
  case (EngineLoad p ls)
  assume "maps_sorted s"
  with EngineLoad show ?thesis by (simp add: maps_sorted_def)
qed

lemma maps_sorted_run_actions:
  "maps_sorted s \<Longrightarrow> maps_sorted (run_actions as s)"
  by (induction as arbitrary: s) (auto intro: maps_sorted_run_action)

lemma maps_sorted_cong:
  "script_lines s' = script_lines s \<Longrightarrow> breakpoints s' = breakpoints s \<Longrightarrow>
     maps_sorted s' = maps_sorted s"
  by (simp add: maps_sorted_def)

lemma maps_TraceFunc_enter:
  "script_lines (snd (TraceFunc_enter fr ta s)) = script_lines s \<and>
   breakpoints (snd (TraceFunc_enter fr ta s)) = breakpoints s \<or>
   script_lines (snd (TraceFunc_enter fr ta s)) = script_lines (ResolveBreakPoints (ClearBreakData s)) \<and>
   breakpoints (snd (TraceFunc_enter fr ta s)) = breakpoints (ResolveBreakPoints (ClearBreakData s))"
  by (simp add: TraceFunc_enter_def Let_def ClearBreakData_def split: option.splits)

lemma maps_sorted_TraceFunc_enter:
  "maps_sorted s \<Longrightarrow> maps_sorted (snd (TraceFunc_enter fr ta s))"
proof -
  assume ms: "maps_sorted s"
  then have "maps_sorted (ClearBreakData s)" by (simp add: maps_sorted_def ClearBreakData_def)
  then have r: "maps_sorted (ResolveBreakPoints (ClearBreakData s))"
    by (rule maps_sorted_ResolveBreakPoints)
  from maps_TraceFunc_enter [of fr ta s] show ?thesis
  proof
    assume "script_lines (snd (TraceFunc_enter fr ta s)) = script_lines s \<and>
      breakpoints (snd (TraceFunc_enter fr ta s)) = breakpoints s"
    with ms show ?thesis using maps_sorted_cong by blast
  next
    assume "script_lines (snd (TraceFunc_enter fr ta s)) =
        script_lines (ResolveBreakPoints (ClearBreakData s)) \<and>
      breakpoints (snd (TraceFunc_enter fr ta s)) = breakpoints (ResolveBreakPoints (ClearBreakData s))"
    with r show ?thesis using maps_sorted_cong by blast
  qed
qed

lemma reachable_maps_sorted: "reachable s \<Longrightarrow> maps_sorted s"
proof (induction rule: reachable.induct)
  case reach_init
  then show ?case by (simp add: maps_sorted_def Impl_init_def)
next
  case (reach_action s a)
  then show ?case by (simp add: maps_sorted_run_action)
next
  case (reach_start s ui)
  have "maps_sorted (s\<lparr>script_lines_hash := []\<rparr>)"
    using reach_start by (simp add: maps_sorted_def)
  then have "maps_sorted (run_actions (ui Initialize) (s\<lparr>script_lines_hash := []\<rparr>))"
    by (rule maps_sorted_run_actions)
  then show ?case by (simp add: Start_enter_def maps_sorted_def)
next
  case (reach_trace s engine_frames ta)
  then show ?case by (simp add: maps_sorted_TraceFunc_enter)
next
  case (reach_resume s)
  then show ?case by (simp add: maps_sorted_def ClearBreakData_def)
qed

end
